theory Spec2Isabelle
  imports Complex_Main "HOL-Library.Word"
begin

section \<open>Bytes, errors and the stream cursor\<close>

text \<open>
  A Python \<^verbatim>\<open>bytes\<close> object is a list of 8-bit words. The integers the program
  handles come out of \<^verbatim>\<open>struct.unpack\<close> with an unsigned format or out of
  \<^verbatim>\<open>len\<close>, so they are natural numbers without an upper bound; the range check of
  \<^verbatim>\<open>struct.pack\<close> is written out where a value is packed.
\<close>

type_synonym byte = "8 word"
type_synonym bytes = "byte list"

text \<open>
  One constructor for every place where the source raises. \<open>StructError\<close> is the
  \<^verbatim>\<open>struct.error\<close> of \<^verbatim>\<open>struct.pack\<close> on a value out of range,
  \<open>LZ4BlockError\<close> whatever \<^verbatim>\<open>lz4.block\<close> raises, \<open>KeyError\<close> the missing key of
  the stem table, \<open>ZeroDivisionError\<close> the division in the progress ratio, the two
  Unicode errors those of \<^verbatim>\<open>str.encode\<close> and \<^verbatim>\<open>bytes.decode\<close>,
  \<open>FileNotFoundError\<close> that of \<^verbatim>\<open>os.utime\<close>, and \<open>OverflowError\<close> that of
  \<^verbatim>\<open>f.read\<close> on a size that does not fit a signed integer of 64 bits.
\<close>

datatype error =
    NotEnoughData_uint64
  | NotEnoughData_uint32
  | NotEnoughData_uint16
  | NotEnoughData_uint8
  | NotEnoughData_wstring
  | TooLargeForWstring
  | InvalidMagic
  | UnsupportedVersion
  | WrongUncompressedSize
  | InvalidCompressionType
  | DestinationExists
  | StructError
  | LZ4BlockError
  | KeyError
  | ZeroDivisionError
  | UnicodeEncodeError
  | UnicodeDecodeError
  | FileNotFoundError
  | OverflowError

text \<open>The error kinds of the specification, and the kind of every exception.\<close>

datatype error_kind =
    TruncatedInput
  | InvalidFormat
  | SizeMismatch
  | FieldTooLarge
  | AlreadyExists
  | UnresolvedReference
  | OtherError

fun kind_of :: "error \<Rightarrow> error_kind" where
  "kind_of NotEnoughData_uint64 = TruncatedInput"
| "kind_of NotEnoughData_uint32 = TruncatedInput"
| "kind_of NotEnoughData_uint16 = TruncatedInput"
| "kind_of NotEnoughData_uint8 = TruncatedInput"
| "kind_of NotEnoughData_wstring = TruncatedInput"
| "kind_of TooLargeForWstring = FieldTooLarge"
| "kind_of InvalidMagic = InvalidFormat"
| "kind_of UnsupportedVersion = InvalidFormat"
| "kind_of InvalidCompressionType = InvalidFormat"
| "kind_of WrongUncompressedSize = SizeMismatch"
| "kind_of DestinationExists = AlreadyExists"
| "kind_of KeyError = UnresolvedReference"
| "kind_of StructError = OtherError"
| "kind_of LZ4BlockError = OtherError"
| "kind_of ZeroDivisionError = OtherError"
| "kind_of UnicodeEncodeError = OtherError"
| "kind_of UnicodeDecodeError = OtherError"
| "kind_of FileNotFoundError = OtherError"
| "kind_of OverflowError = OtherError"

text \<open>
  A reader is a function of the bytes that remain in the stream: it fails, or returns a
  value and the bytes that remain after it. \<open>rbind\<close> runs one reader after another,
  as consecutive statements on the same file object do.
\<close>

type_synonym 'a reader = "bytes \<Rightarrow> error + ('a \<times> bytes)"

definition rreturn :: "'a \<Rightarrow> 'a reader" where
  "rreturn v s = Inr (v, s)"

definition rraise :: "error \<Rightarrow> 'a reader" where
  "rraise e s = Inl e"

definition rbind :: "'a reader \<Rightarrow> ('a \<Rightarrow> 'b reader) \<Rightarrow> 'b reader" where
  "rbind m k s = (case m s of Inl e \<Rightarrow> Inl e | Inr (v, s') \<Rightarrow> k v s')"

text \<open>
  \<^verbatim>\<open>f.read(n)\<close> converts \<open>n\<close> to a signed integer of 64 bits and raises
  \<^verbatim>\<open>OverflowError\<close> when \<open>n\<close> does not fit; otherwise it returns the next \<open>n\<close> bytes, or
  all that remain when fewer do. A buffer of Python holds fewer than \<open>2 ^ 63\<close> bytes, so
  a size that does not fit is always more than what remains, and the model raises on
  such a size when it is more than what remains: on every buffer it is \<^verbatim>\<open>f.read\<close>, and
  a list longer than any buffer is read like a buffer. \<^verbatim>\<open>f.read()\<close> returns all that
  remain and does not raise. Memory is not modelled: no read fails for want of it.
\<close>

definition f_read :: "nat \<Rightarrow> bytes reader" where
  "f_read n s =
     (if 2 ^ 63 \<le> n \<and> length s < n then Inl OverflowError
      else Inr (take n s, drop n s))"

definition f_read_all :: "bytes reader" where
  "f_read_all s = Inr (s, [])"

text \<open>\<^verbatim>\<open>struct.unpack\<close> and \<^verbatim>\<open>struct.pack\<close> of a little-endian unsigned integer.\<close>

fun le_unpack :: "bytes \<Rightarrow> nat" where
  "le_unpack [] = 0"
| "le_unpack (b # bs) = unat b + 256 * le_unpack bs"

fun le_pack :: "nat \<Rightarrow> nat \<Rightarrow> bytes" where
  "le_pack 0 v = []"
| "le_pack (Suc n) v = of_nat (v mod 256) # le_pack n (v div 256)"

definition read_uint64 :: "nat reader" where
  "read_uint64 =
     rbind (f_read 8) (\<lambda>data.
       if length data \<noteq> 8 then rraise NotEnoughData_uint64
       else rreturn (le_unpack data))"

definition read_uint32 :: "nat reader" where
  "read_uint32 =
     rbind (f_read 4) (\<lambda>data.
       if length data \<noteq> 4 then rraise NotEnoughData_uint32
       else rreturn (le_unpack data))"

definition read_uint16 :: "nat reader" where
  "read_uint16 =
     rbind (f_read 2) (\<lambda>data.
       if length data \<noteq> 2 then rraise NotEnoughData_uint16
       else rreturn (le_unpack data))"

definition read_uint8 :: "nat reader" where
  "read_uint8 =
     rbind (f_read 1) (\<lambda>data.
       if length data \<noteq> 1 then rraise NotEnoughData_uint8
       else rreturn (le_unpack data))"

definition read_wstring :: "bytes reader" where
  "read_wstring =
     rbind read_uint16 (\<lambda>size.
     rbind (f_read size) (\<lambda>data.
       if length data \<noteq> size then rraise NotEnoughData_wstring
       else rreturn data))"

text \<open>The writers. A value out of the format's range raises \<^verbatim>\<open>struct.error\<close>.\<close>

definition pack_uint64 :: "nat \<Rightarrow> error + bytes" where
  "pack_uint64 v = (if v < 2 ^ 64 then Inr (le_pack 8 v) else Inl StructError)"

definition pack_uint32 :: "nat \<Rightarrow> error + bytes" where
  "pack_uint32 v = (if v < 2 ^ 32 then Inr (le_pack 4 v) else Inl StructError)"

definition pack_uint16 :: "nat \<Rightarrow> error + bytes" where
  "pack_uint16 v = (if v < 2 ^ 16 then Inr (le_pack 2 v) else Inl StructError)"

definition pack_uint8 :: "nat \<Rightarrow> error + bytes" where
  "pack_uint8 v = (if v < 2 ^ 8 then Inr (le_pack 1 v) else Inl StructError)"

definition pack_wstring :: "bytes \<Rightarrow> error + bytes" where
  "pack_wstring v =
     (if length v > 2 ^ 16 - 1 then Inl TooLargeForWstring
      else Inr (le_pack 2 (length v) @ v))"

text \<open>Sequencing of computations that can raise and have no stream.\<close>

definition ebind :: "error + 'a \<Rightarrow> ('a \<Rightarrow> error + 'b) \<Rightarrow> error + 'b" where
  "ebind m k = (case m of Inl e \<Rightarrow> Inl e | Inr v \<Rightarrow> k v)"

section \<open>The FILETIME conversion\<close>

definition EPOCH_AS_FILETIME :: int where
  "EPOCH_AS_FILETIME = 116444736000000000"

definition windows_filetime_to_unix_second :: "int \<Rightarrow> int" where
  "windows_filetime_to_unix_second ft = (ft - EPOCH_AS_FILETIME) div (10 ^ 9 div 100)"

section \<open>The save record\<close>

text \<open>
  The attributes that \<^verbatim>\<open>ESS.__init__\<close> sets, in the order in which it reads them.
  The header ends with the compression-type tag. \<open>uncompressedLen\<close> and
  \<open>compressedLen\<close> are attributes of the object only when the tag is 2.
\<close>

record ess_header =
  headerSize :: nat
  version :: nat
  saveNumber :: nat
  playerName :: bytes
  playerLevel :: nat
  playerLocation :: bytes
  gameDate :: bytes
  playerRaceEditorId :: bytes
  playerSex :: nat
  playerCurExp :: bytes
  playerLvlUpExp :: bytes
  filetime :: nat
  shotWidth :: nat
  shotHeight :: nat
  compressionType :: nat

record ess = ess_header +
  screenshotData :: bytes
  uncompressedLen :: "nat option"
  compressedLen :: "nat option"
  uncompressedBlob :: bytes

definition MAGIC :: bytes where
  "MAGIC = [84, 69, 83, 86, 95, 83, 65, 86, 69, 71, 65, 77, 69]"

text \<open>
  The block codec is \<^verbatim>\<open>lz4.block\<close>, a library outside the repository. The functions
  below take it as two parameters: \<open>lz4_compress blob\<close> stands for
  \<^verbatim>\<open>lz4.block.compress(blob, store_size=False)\<close> and \<open>lz4_decompress src n\<close> for
  \<^verbatim>\<open>lz4.block.decompress(src, uncompressed_size=n)\<close>; \<open>None\<close> is an exception of the
  library.
\<close>

type_synonym block_compress = "bytes \<Rightarrow> bytes option"
type_synonym block_decompress = "bytes \<Rightarrow> nat \<Rightarrow> bytes option"

text \<open>\<^verbatim>\<open>ESS.__init__\<close>, from the magic to the compression-type tag.\<close>

definition read_header :: "ess_header reader" where
  "read_header =
     rbind (f_read 13) (\<lambda>magic.
     if magic \<noteq> MAGIC then rraise InvalidMagic else
     rbind read_uint32 (\<lambda>hsz.
     rbind read_uint32 (\<lambda>ver.
     if ver \<noteq> 12 then rraise UnsupportedVersion else
     rbind read_uint32 (\<lambda>num.
     rbind read_wstring (\<lambda>name.
     rbind read_uint32 (\<lambda>lvl.
     rbind read_wstring (\<lambda>loc.
     rbind read_wstring (\<lambda>date.
     rbind read_wstring (\<lambda>race.
     rbind read_uint16 (\<lambda>sex.
     rbind (f_read 4) (\<lambda>cur.
     rbind (f_read 4) (\<lambda>lvlup.
     rbind read_uint64 (\<lambda>ft.
     rbind read_uint32 (\<lambda>w.
     rbind read_uint32 (\<lambda>h.
     rbind read_uint16 (\<lambda>tag.
     rreturn \<lparr>headerSize = hsz, version = ver, saveNumber = num, playerName = name,
       playerLevel = lvl, playerLocation = loc, gameDate = date,
       playerRaceEditorId = race, playerSex = sex, playerCurExp = cur,
       playerLvlUpExp = lvlup, filetime = ft, shotWidth = w, shotHeight = h,
       compressionType = tag\<rparr>))))))))))))))))"

text \<open>The object once the screenshot and the payload have been read.\<close>

definition with_body ::
    "ess_header \<Rightarrow> bytes \<Rightarrow> nat option \<Rightarrow> nat option \<Rightarrow> bytes \<Rightarrow> ess" where
  "with_body h shot ulen clen blob =
     \<lparr>headerSize = headerSize h, version = version h, saveNumber = saveNumber h,
      playerName = playerName h, playerLevel = playerLevel h,
      playerLocation = playerLocation h, gameDate = gameDate h,
      playerRaceEditorId = playerRaceEditorId h, playerSex = playerSex h,
      playerCurExp = playerCurExp h, playerLvlUpExp = playerLvlUpExp h,
      filetime = filetime h, shotWidth = shotWidth h, shotHeight = shotHeight h,
      compressionType = compressionType h,
      screenshotData = shot, uncompressedLen = ulen, compressedLen = clen,
      uncompressedBlob = blob\<rparr>"

text \<open>\<^verbatim>\<open>ESS.__init__\<close>, from the screenshot to the end.\<close>

definition read_body :: "block_decompress \<Rightarrow> ess_header \<Rightarrow> ess reader" where
  "read_body lz4_decompress h =
     rbind (f_read (4 * shotWidth h * shotHeight h)) (\<lambda>shot.
     if compressionType h = 0 then
       rbind f_read_all (\<lambda>blob.
       rreturn (with_body h shot None None blob))
     else if compressionType h = 2 then
       rbind read_uint32 (\<lambda>ulen.
       rbind read_uint32 (\<lambda>clen.
       rbind f_read_all (\<lambda>src.
       case lz4_decompress src ulen of
         None \<Rightarrow> rraise LZ4BlockError
       | Some blob \<Rightarrow>
           if length blob \<noteq> ulen then rraise WrongUncompressedSize
           else rreturn (with_body h shot (Some ulen) (Some clen) blob))))
     else rraise InvalidCompressionType)"

text \<open>\<^verbatim>\<open>ESS(input)\<close> for an input of type \<^verbatim>\<open>bytes\<close>, or the contents of a file.\<close>

definition ESS_init :: "block_decompress \<Rightarrow> bytes \<Rightarrow> error + ess" where
  "ESS_init lz4_decompress input =
     (case rbind read_header (read_body lz4_decompress) input of
        Inl e \<Rightarrow> Inl e
      | Inr (r, rest) \<Rightarrow> Inr r)"

text \<open>
  The chunks that \<^verbatim>\<open>get_uncompressed\<close> and \<^verbatim>\<open>get_compressed\<close> both start with: the
  two methods differ there in the tag only.
\<close>

definition header_chunks :: "ess \<Rightarrow> nat \<Rightarrow> error + bytes" where
  "header_chunks r tag =
     ebind (pack_uint32 (headerSize r)) (\<lambda>c1.
     ebind (pack_uint32 (version r)) (\<lambda>c2.
     ebind (pack_uint32 (saveNumber r)) (\<lambda>c3.
     ebind (pack_wstring (playerName r)) (\<lambda>c4.
     ebind (pack_uint32 (playerLevel r)) (\<lambda>c5.
     ebind (pack_wstring (playerLocation r)) (\<lambda>c6.
     ebind (pack_wstring (gameDate r)) (\<lambda>c7.
     ebind (pack_wstring (playerRaceEditorId r)) (\<lambda>c8.
     ebind (pack_uint16 (playerSex r)) (\<lambda>c9.
     ebind (pack_uint64 (filetime r)) (\<lambda>c12.
     ebind (pack_uint32 (shotWidth r)) (\<lambda>c13.
     ebind (pack_uint32 (shotHeight r)) (\<lambda>c14.
     ebind (pack_uint16 tag) (\<lambda>c15.
     Inr (MAGIC @ c1 @ c2 @ c3 @ c4 @ c5 @ c6 @ c7 @ c8 @ c9 @ playerCurExp r
          @ playerLvlUpExp r @ c12 @ c13 @ c14 @ c15))))))))))))))"

definition get_uncompressed :: "ess \<Rightarrow> error + bytes" where
  "get_uncompressed r =
     ebind (header_chunks r 0) (\<lambda>hdr.
     Inr (hdr @ screenshotData r @ uncompressedBlob r))"

definition get_compressed :: "block_compress \<Rightarrow> ess \<Rightarrow> error + bytes" where
  "get_compressed lz4_compress r =
     ebind (header_chunks r 2) (\<lambda>hdr.
     ebind (pack_uint32 (length (uncompressedBlob r))) (\<lambda>ulen.
     case lz4_compress (uncompressedBlob r) of
       None \<Rightarrow> Inl LZ4BlockError
     | Some compressedBlob \<Rightarrow>
         ebind (pack_uint32 (length compressedBlob)) (\<lambda>clen.
         Inr (hdr @ screenshotData r @ ulen @ clen @ compressedBlob))))"

definition get_filetime_as_posix_seconds :: "ess \<Rightarrow> int" where
  "get_filetime_as_posix_seconds r = windows_filetime_to_unix_second (int (filetime r))"

text \<open>
  The header of a record, the bytes a header stands for on the wire, and the ranges that
  the fields of a header read by \<open>read_header\<close> lie in.
\<close>

definition header_of :: "ess \<Rightarrow> ess_header" where
  "header_of r =
     \<lparr>headerSize = headerSize r, version = version r, saveNumber = saveNumber r,
      playerName = playerName r, playerLevel = playerLevel r,
      playerLocation = playerLocation r, gameDate = gameDate r,
      playerRaceEditorId = playerRaceEditorId r, playerSex = playerSex r,
      playerCurExp = playerCurExp r, playerLvlUpExp = playerLvlUpExp r,
      filetime = filetime r, shotWidth = shotWidth r, shotHeight = shotHeight r,
      compressionType = compressionType r\<rparr>"

definition header_bytes :: "ess_header \<Rightarrow> bytes" where
  "header_bytes h =
     MAGIC @ le_pack 4 (headerSize h) @ le_pack 4 (version h) @ le_pack 4 (saveNumber h)
     @ (le_pack 2 (length (playerName h)) @ playerName h)
     @ le_pack 4 (playerLevel h)
     @ (le_pack 2 (length (playerLocation h)) @ playerLocation h)
     @ (le_pack 2 (length (gameDate h)) @ gameDate h)
     @ (le_pack 2 (length (playerRaceEditorId h)) @ playerRaceEditorId h)
     @ le_pack 2 (playerSex h) @ playerCurExp h @ playerLvlUpExp h
     @ le_pack 8 (filetime h) @ le_pack 4 (shotWidth h) @ le_pack 4 (shotHeight h)
     @ le_pack 2 (compressionType h)"

definition wf_header :: "ess_header \<Rightarrow> bool" where
  "wf_header h =
     (headerSize h < 2 ^ 32 \<and> version h = 12 \<and> saveNumber h < 2 ^ 32
      \<and> length (playerName h) < 2 ^ 16 \<and> playerLevel h < 2 ^ 32
      \<and> length (playerLocation h) < 2 ^ 16 \<and> length (gameDate h) < 2 ^ 16
      \<and> length (playerRaceEditorId h) < 2 ^ 16 \<and> playerSex h < 2 ^ 16
      \<and> length (playerCurExp h) = 4 \<and> length (playerLvlUpExp h) = 4
      \<and> filetime h < 2 ^ 64 \<and> shotWidth h < 2 ^ 32 \<and> shotHeight h < 2 ^ 32
      \<and> compressionType h < 2 ^ 16)"


text \<open>The four bytes of an input where \<open>read_header\<close> reads the format version.\<close>

definition version_field :: "bytes \<Rightarrow> nat" where
  "version_field b = le_unpack (take 4 (drop 17 b))"

text \<open>
  A small header for concrete inputs, as a record and as the bytes of a file: no text, no
  experience, FILETIME 0, the given screenshot size and compression-type tag.
\<close>

definition example_header :: "nat \<Rightarrow> nat \<Rightarrow> nat \<Rightarrow> ess_header" where
  "example_header w h tag =
     \<lparr>headerSize = 0, version = 12, saveNumber = 1, playerName = [], playerLevel = 1,
      playerLocation = [], gameDate = [], playerRaceEditorId = [], playerSex = 0,
      playerCurExp = [0, 0, 0, 0], playerLvlUpExp = [0, 0, 0, 0], filetime = 0,
      shotWidth = w, shotHeight = h, compressionType = tag\<rparr>"

definition example_header_bytes :: "byte \<Rightarrow> byte \<Rightarrow> byte \<Rightarrow> bytes" where
  "example_header_bytes w h tag =
     [84, 69, 83, 86, 95, 83, 65, 86, 69, 71, 65, 77, 69,
      0, 0, 0, 0,  12, 0, 0, 0,  1, 0, 0, 0,  0, 0,  1, 0, 0, 0,  0, 0,  0, 0,  0, 0,
      0, 0,  0, 0, 0, 0,  0, 0, 0, 0,  0, 0, 0, 0, 0, 0, 0, 0,
      w, 0, 0, 0,  h, 0, 0, 0,  tag, 0]"


text \<open>
  A block codec for concrete inputs. It stores the buffer as it is, and it refuses to
  decompress into less room than the buffer needs.
\<close>

definition stored_compress :: block_compress where
  "stored_compress blob = Some blob"

definition stored_decompress :: block_decompress where
  "stored_decompress src n = (if length src \<le> n then Some src else None)"

text \<open>
  The part of \<open>read_header\<close> that follows the read of \<open>headerSize\<close>: the value read is
  kept until the record is built and used nowhere before.
\<close>

definition read_header_after_size :: "nat \<Rightarrow> ess_header reader" where
  "read_header_after_size hsz =
     rbind read_uint32 (\<lambda>ver.
     if ver \<noteq> 12 then rraise UnsupportedVersion else
     rbind read_uint32 (\<lambda>num.
     rbind read_wstring (\<lambda>name.
     rbind read_uint32 (\<lambda>lvl.
     rbind read_wstring (\<lambda>loc.
     rbind read_wstring (\<lambda>date.
     rbind read_wstring (\<lambda>race.
     rbind read_uint16 (\<lambda>sex.
     rbind (f_read 4) (\<lambda>cur.
     rbind (f_read 4) (\<lambda>lvlup.
     rbind read_uint64 (\<lambda>ft.
     rbind read_uint32 (\<lambda>w.
     rbind read_uint32 (\<lambda>h.
     rbind read_uint16 (\<lambda>tag.
     rreturn \<lparr>headerSize = hsz, version = ver, saveNumber = num, playerName = name,
       playerLevel = lvl, playerLocation = loc, gameDate = date,
       playerRaceEditorId = race, playerSex = sex, playerCurExp = cur,
       playerLvlUpExp = lvlup, filetime = ft, shotWidth = w, shotHeight = h,
       compressionType = tag\<rparr>))))))))))))))"

text \<open>A result with the \<open>headerSize\<close> of its record replaced.\<close>

definition with_headerSize :: "nat \<Rightarrow> error + ess \<Rightarrow> error + ess" where
  "with_headerSize v x = (case x of Inl e \<Rightarrow> Inl e | Inr r \<Rightarrow> Inr (r\<lparr>headerSize := v\<rparr>))"

text \<open>
  Two records agree in every field but the compression-type tag and the two declared
  sizes.
\<close>

definition same_semantic :: "ess \<Rightarrow> ess \<Rightarrow> bool" where
  "same_semantic r r' =
     (headerSize r = headerSize r' \<and> version r = version r' \<and> saveNumber r = saveNumber r'
      \<and> playerName r = playerName r' \<and> playerLevel r = playerLevel r'
      \<and> playerLocation r = playerLocation r' \<and> gameDate r = gameDate r'
      \<and> playerRaceEditorId r = playerRaceEditorId r' \<and> playerSex r = playerSex r'
      \<and> playerCurExp r = playerCurExp r' \<and> playerLvlUpExp r = playerLvlUpExp r'
      \<and> filetime r = filetime r' \<and> shotWidth r = shotWidth r' \<and> shotHeight r = shotHeight r'
      \<and> screenshotData r = screenshotData r' \<and> uncompressedBlob r = uncompressedBlob r')"

text \<open>A payload of 4 GiB, one byte more than a 32-bit length can declare.\<close>

definition huge_payload :: bytes where
  "huge_payload = replicate (2 ^ 32) 0"

section \<open>The archive\<close>

text \<open>
  A file name is the bytes of the last component of a path, as the file system of a POSIX
  host keeps it. Python turns these bytes into a \<^verbatim>\<open>str\<close> and back; the two directions
  raise on the names that are not well-formed UTF-8, and are the identity on the others.
  \<open>utf8_valid\<close> is the well-formedness of the Unicode standard (no overlong form, no
  surrogate, nothing above U+10FFFF), which the strict codec of Python checks.
\<close>

type_synonym filename = bytes

datatype utf8_state = Start | Need nat nat nat

fun utf8_step :: "utf8_state \<Rightarrow> nat \<Rightarrow> utf8_state option" where
  "utf8_step Start b =
     (if b < 128 then Some Start
      else if 194 \<le> b \<and> b \<le> 223 then Some (Need 128 191 0)
      else if b = 224 then Some (Need 160 191 1)
      else if (225 \<le> b \<and> b \<le> 236) \<or> b = 238 \<or> b = 239 then Some (Need 128 191 1)
      else if b = 237 then Some (Need 128 159 1)
      else if b = 240 then Some (Need 144 191 2)
      else if 241 \<le> b \<and> b \<le> 243 then Some (Need 128 191 2)
      else if b = 244 then Some (Need 128 143 2)
      else None)"
| "utf8_step (Need lo hi k) b =
     (if lo \<le> b \<and> b \<le> hi
      then Some (case k of 0 \<Rightarrow> Start | Suc j \<Rightarrow> Need 128 191 j)
      else None)"

fun utf8_run :: "utf8_state \<Rightarrow> bytes \<Rightarrow> bool" where
  "utf8_run s [] = (s = Start)"
| "utf8_run s (b # bs) =
     (case utf8_step s (unat b) of None \<Rightarrow> False | Some s' \<Rightarrow> utf8_run s' bs)"

definition utf8_valid :: "bytes \<Rightarrow> bool" where
  "utf8_valid bs = utf8_run Start bs"

text \<open>\<^verbatim>\<open>str(path.name).encode(encoding='utf-8')\<close> and \<^verbatim>\<open>data.decode(encoding='utf-8')\<close>.\<close>

definition encode_utf8 :: "filename \<Rightarrow> error + bytes" where
  "encode_utf8 name = (if utf8_valid name then Inr name else Inl UnicodeEncodeError)"

definition decode_utf8 :: "bytes \<Rightarrow> error + filename" where
  "decode_utf8 data = (if utf8_valid data then Inr data else Inl UnicodeDecodeError)"

text \<open>
  \<^verbatim>\<open>Path(name).stem\<close> for a name of one component: the name without its last suffix,
  where a dot that starts or ends the name starts no suffix.
\<close>

definition rfind_dot :: "filename \<Rightarrow> nat option" where
  "rfind_dot name =
     (if 46 \<in> set name
      then Some (length name - 1 - length (takeWhile (\<lambda>b. b \<noteq> 46) (rev name)))
      else None)"

definition path_stem :: "filename \<Rightarrow> filename" where
  "path_stem name =
     (case rfind_dot name of
        None \<Rightarrow> name
      | Some i \<Rightarrow> if 0 < i \<and> i < length name - 1 then take i name else name)"

subsection \<open>Writing\<close>

definition MiB :: nat where
  "MiB = 1 * 1024 * 1024"

definition READ_CHUNK_SIZE :: nat where
  "READ_CHUNK_SIZE = 1 * MiB"

text \<open>
  \<^verbatim>\<open>chunks(arr, size)\<close>: the slices \<^verbatim>\<open>arr[i:i+size]\<close> for \<open>i\<close> in
  \<^verbatim>\<open>range(0, len(arr), size)\<close>. The only caller passes \<open>READ_CHUNK_SIZE\<close>; with the step 0
  \<^verbatim>\<open>range\<close> would raise, and the model yields nothing.
\<close>

function chunks_from :: "nat \<Rightarrow> 'a list \<Rightarrow> nat \<Rightarrow> 'a list list" where
  "chunks_from i arr sz =
     (if sz = 0 \<or> length arr \<le> i then []
      else take sz (drop i arr) # chunks_from (i + sz) arr sz)"
  by pat_completeness auto
termination
  by (relation "measure (\<lambda>(i, arr, sz). length arr - i)") auto

declare chunks_from.simps [simp del]

definition chunks :: "'a list \<Rightarrow> nat \<Rightarrow> 'a list list" where
  "chunks arr sz = chunks_from 0 arr sz"

text \<open>
  \<^verbatim>\<open>append_blob(compressor, blob)\<close>. The compressor is modelled by the bytes written into
  it so far, which are the bytes that the decompressor of the archive yields: the
  streaming codec is \<^verbatim>\<open>zstandard\<close>, a library outside the repository, and lossless. What
  \<^verbatim>\<open>compressor.tell()\<close> returns only feeds the progress bar, whose ratio divides by the
  number of bytes read so far.
\<close>

fun append_chunks :: "bytes \<Rightarrow> nat \<Rightarrow> bytes list \<Rightarrow> error + bytes" where
  "append_chunks compressor total_read [] = Inr compressor"
| "append_chunks compressor total_read (chunk # rest) =
     (if total_read + length chunk = 0 then Inl ZeroDivisionError
      else append_chunks (compressor @ chunk) (total_read + length chunk) rest)"

definition append_blob :: "bytes \<Rightarrow> bytes \<Rightarrow> error + bytes" where
  "append_blob compressor blob = append_chunks compressor 0 (chunks blob READ_CHUNK_SIZE)"

text \<open>A loop over a list whose body can raise.\<close>

fun for_each :: "('a \<Rightarrow> 's \<Rightarrow> error + 's) \<Rightarrow> 'a list \<Rightarrow> 's \<Rightarrow> error + 's" where
  "for_each body [] st = Inr st"
| "for_each body (x # xs) st =
     (case body x st of Inl e \<Rightarrow> Inl e | Inr st' \<Rightarrow> for_each body xs st')"

text \<open>
  The state of \<^verbatim>\<open>compress_files\<close>: the compressor and \<^verbatim>\<open>total_read\<close>. A source file is
  its name and its contents; \<^verbatim>\<open>os.path.getsize\<close> is the length of the contents.
\<close>

type_synonym pack_state = "bytes \<times> nat"

text \<open>The body of the loop over \<^verbatim>\<open>ess_files\<close>.\<close>

definition pack_ess_file ::
    "block_decompress \<Rightarrow> filename \<times> bytes \<Rightarrow> pack_state \<Rightarrow> error + pack_state" where
  "pack_ess_file lz4_decompress ess_file st =
     (case (ess_file, st) of ((name, data), (compressor, total_read)) \<Rightarrow>
      ebind (ESS_init lz4_decompress data) (\<lambda>ess.
      ebind (get_uncompressed ess) (\<lambda>uncompressed_blob.
      ebind (encode_utf8 name) (\<lambda>name_bytes.
      ebind (pack_wstring name_bytes) (\<lambda>h1.
      ebind (pack_uint32 (length uncompressed_blob)) (\<lambda>h2.
      ebind (append_blob compressor (h1 @ h2)) (\<lambda>compressor1.
      ebind (append_blob compressor1 uncompressed_blob) (\<lambda>compressor2.
      if total_read + length data = 0 then Inl ZeroDivisionError
      else Inr (compressor2, total_read + length data)))))))))"

text \<open>The body of the loop over \<^verbatim>\<open>skse_files\<close>.\<close>

definition pack_skse_file :: "filename \<times> bytes \<Rightarrow> pack_state \<Rightarrow> error + pack_state" where
  "pack_skse_file skse_file st =
     (case (skse_file, st) of ((name, data), (compressor, total_read)) \<Rightarrow>
      ebind (encode_utf8 name) (\<lambda>name_bytes.
      ebind (pack_wstring name_bytes) (\<lambda>h1.
      ebind (pack_uint32 (length data)) (\<lambda>h2.
      ebind (append_blob compressor (h1 @ h2)) (\<lambda>compressor1.
      ebind (append_blob compressor1 data) (\<lambda>compressor2.
      if total_read + length data = 0 then Inl ZeroDivisionError
      else Inr (compressor2, total_read + length data)))))))"

text \<open>
  \<^verbatim>\<open>compress_files\<close>: the bytes written through the compressor when it returns, that is
  the decompressed contents of the archive.
\<close>

definition compress_files ::
    "block_decompress \<Rightarrow> (filename \<times> bytes) list \<Rightarrow> (filename \<times> bytes) list \<Rightarrow> error + bytes" where
  "compress_files lz4_decompress ess_files skse_files =
     ebind (pack_uint32 (length ess_files)) (\<lambda>h1.
     ebind (pack_uint32 (length skse_files)) (\<lambda>h2.
     ebind (append_blob [] (h1 @ h2)) (\<lambda>compressor.
     ebind (for_each (pack_ess_file lz4_decompress) ess_files (compressor, 0)) (\<lambda>st1.
     ebind (for_each pack_skse_file skse_files st1) (\<lambda>st2.
     Inr (fst st2))))))"

subsection \<open>Reading\<close>

text \<open>
  The output directory: the files in it in the order of their creation, each with its
  contents and the access and modification times that \<^verbatim>\<open>os.utime\<close> has set, if it has.
  Names stand for paths in the directory, so the names of an archive are taken to have
  one component. The empty name and the names \<^verbatim>\<open>.\<close> and \<^verbatim>\<open>..\<close> make
  \<^verbatim>\<open>output_directory.joinpath(name)\<close> the output directory itself or its parent, and
  these exist.
\<close>

record out_file =
  contents :: bytes
  file_times :: "(int \<times> int) option"

type_synonym directory = "(filename \<times> out_file) list"

definition path_exists :: "directory \<Rightarrow> filename \<Rightarrow> bool" where
  "path_exists dir name =
     (name \<in> fst ` set dir \<or> name = [] \<or> name = [46] \<or> name = [46, 46])"

definition update_file :: "directory \<Rightarrow> filename \<Rightarrow> (out_file \<Rightarrow> out_file) \<Rightarrow> directory" where
  "update_file dir name g = map (\<lambda>(n, f). if n = name then (n, g f) else (n, f)) dir"

text \<open>\<^verbatim>\<open>open(path, 'wb')\<close> creates the file, or empties it; \<^verbatim>\<open>out_f.write\<close> appends.\<close>

definition open_wb :: "directory \<Rightarrow> filename \<Rightarrow> directory" where
  "open_wb dir name =
     (if path_exists dir name then update_file dir name (\<lambda>f. f\<lparr>contents := []\<rparr>)
      else dir @ [(name, \<lparr>contents = [], file_times = None\<rparr>)])"

definition write_file :: "directory \<Rightarrow> filename \<Rightarrow> bytes \<Rightarrow> directory" where
  "write_file dir name data = update_file dir name (\<lambda>f. f\<lparr>contents := contents f @ data\<rparr>)"

definition utime :: "directory \<Rightarrow> filename \<Rightarrow> int \<times> int \<Rightarrow> error + directory" where
  "utime dir name ts =
     (if path_exists dir name then Inr (update_file dir name (\<lambda>f. f\<lparr>file_times := Some ts\<rparr>))
      else Inl FileNotFoundError)"

text \<open>
  The state of \<^verbatim>\<open>decompress_files\<close>: what the decompressor has still to yield, the
  output directory and the table of timestamps. An exception leaves the directory as it
  is when it is raised, so the loop bodies return the state with the exception.
\<close>

record restore_state =
  stream :: bytes
  dir :: directory
  stem_to_posix_timestamp :: "filename \<rightharpoonup> int"

text \<open>The body of the loop over the ESS entries.\<close>

definition restore_ess_entry ::
    "block_compress \<Rightarrow> block_decompress \<Rightarrow> restore_state \<Rightarrow> error option \<times> restore_state" where
  "restore_ess_entry lz4_compress lz4_decompress st =
     (case read_wstring (stream st) of
        Inl e \<Rightarrow> (Some e, st)
      | Inr (name_bytes, s1) \<Rightarrow>
     (case decode_utf8 name_bytes of
        Inl e \<Rightarrow> (Some e, st\<lparr>stream := s1\<rparr>)
      | Inr name \<Rightarrow>
     if path_exists (dir st) name then (Some DestinationExists, st\<lparr>stream := s1\<rparr>)
     else
     (case read_uint32 s1 of
        Inl e \<Rightarrow> (Some e, st\<lparr>stream := s1\<rparr>)
      | Inr (filesize, s2) \<Rightarrow>
     (case ESS_init lz4_decompress (take filesize s2) of
        Inl e \<Rightarrow> (Some e, st\<lparr>stream := drop filesize s2\<rparr>)
      | Inr ess \<Rightarrow>
     let ts = get_filetime_as_posix_seconds ess;
         st1 = st\<lparr>stream := drop filesize s2,
                  stem_to_posix_timestamp := (stem_to_posix_timestamp st)(path_stem name \<mapsto> ts)\<rparr>
     in
     if \<not> path_exists (dir st1) name then
       (let st2 = st1\<lparr>dir := open_wb (dir st1) name\<rparr> in
        case get_compressed lz4_compress ess of
          Inl e \<Rightarrow> (Some e, st2)
        | Inr data \<Rightarrow>
        let st3 = st2\<lparr>dir := write_file (dir st2) name data\<rparr> in
        case utime (dir st3) name (ts, ts) of
          Inl e \<Rightarrow> (Some e, st3)
        | Inr dir' \<Rightarrow> (None, st3\<lparr>dir := dir'\<rparr>))
     else
       (case utime (dir st1) name (ts, ts) of
          Inl e \<Rightarrow> (Some e, st1)
        | Inr dir' \<Rightarrow> (None, st1\<lparr>dir := dir'\<rparr>))))))"

text \<open>The body of the loop over the sidecar entries.\<close>

definition restore_skse_entry :: "restore_state \<Rightarrow> error option \<times> restore_state" where
  "restore_skse_entry st =
     (case read_wstring (stream st) of
        Inl e \<Rightarrow> (Some e, st)
      | Inr (name_bytes, s1) \<Rightarrow>
     (case decode_utf8 name_bytes of
        Inl e \<Rightarrow> (Some e, st\<lparr>stream := s1\<rparr>)
      | Inr name \<Rightarrow>
     if path_exists (dir st) name then (Some DestinationExists, st\<lparr>stream := s1\<rparr>)
     else
     (case read_uint32 s1 of
        Inl e \<Rightarrow> (Some e, st\<lparr>stream := s1\<rparr>)
      | Inr (filesize, s2) \<Rightarrow>
     if \<not> path_exists (dir st) name then
       (let st1 = st\<lparr>stream := drop filesize s2,
                     dir := write_file (open_wb (dir st) name) name (take filesize s2)\<rparr> in
        case stem_to_posix_timestamp st1 (path_stem name) of
          None \<Rightarrow> (Some KeyError, st1)
        | Some ts \<Rightarrow>
        case utime (dir st1) name (ts, ts) of
          Inl e \<Rightarrow> (Some e, st1)
        | Inr dir' \<Rightarrow> (None, st1\<lparr>dir := dir'\<rparr>))
     else (None, st\<lparr>stream := s2\<rparr>))))"

text \<open>\<^verbatim>\<open>for i in range(n)\<close> with a body that can raise.\<close>

fun repeat_step ::
    "nat \<Rightarrow> ('s \<Rightarrow> error option \<times> 's) \<Rightarrow> 's \<Rightarrow> error option \<times> 's" where
  "repeat_step 0 body st = (None, st)"
| "repeat_step (Suc n) body st =
     (case body st of
        (Some e, st') \<Rightarrow> (Some e, st')
      | (None, st') \<Rightarrow> repeat_step n body st')"

text \<open>
  \<^verbatim>\<open>decompress_files\<close>, from the bytes that the decompressor of the archive yields and
  the output directory as it is found, to the exception, if any, and the directory as it
  is left.
\<close>

definition decompress_files ::
    "block_compress \<Rightarrow> block_decompress \<Rightarrow> bytes \<Rightarrow> directory \<Rightarrow> error option \<times> directory" where
  "decompress_files lz4_compress lz4_decompress archive output_directory =
     (case read_uint32 archive of
        Inl e \<Rightarrow> (Some e, output_directory)
      | Inr (num_ess_files, s1) \<Rightarrow>
     (case read_uint32 s1 of
        Inl e \<Rightarrow> (Some e, output_directory)
      | Inr (num_skse_files, s2) \<Rightarrow>
     (case repeat_step num_ess_files (restore_ess_entry lz4_compress lz4_decompress)
             \<lparr>stream = s2, dir = output_directory, stem_to_posix_timestamp = Map.empty\<rparr> of
        (Some e, st) \<Rightarrow> (Some e, dir st)
      | (None, st) \<Rightarrow>
     (case repeat_step num_skse_files restore_skse_entry st of
        (e, st') \<Rightarrow> (e, dir st')))))"


text \<open>The bytes of one entry of the archive: the name, the length of the payload, the payload.\<close>

definition entry_bytes :: "filename \<Rightarrow> bytes \<Rightarrow> bytes" where
  "entry_bytes name payload =
     le_pack 2 (length name) @ name @ le_pack 4 (length payload) @ payload"

text \<open>
  Names for concrete archives: \<^verbatim>\<open>Save1.ess\<close> and \<^verbatim>\<open>Save1.skse\<close>, and a directory that holds
  a file of the first name already.
\<close>

definition example_name :: filename where
  "example_name = [83, 97, 118, 101, 49, 46, 101, 115, 115]"

definition example_sidecar_name :: filename where
  "example_sidecar_name = [83, 97, 118, 101, 49, 46, 115, 107, 115, 101]"

definition example_dir :: directory where
  "example_dir = [(example_name, \<lparr>contents = [1, 2, 3], file_times = None\<rparr>)]"

text \<open>
  A save for concrete archives: the small header with the tag 2, the declared lengths 3
  and 3, and a payload that the block codec for concrete inputs decompresses to the
  bytes 1, 2, 3.
\<close>

definition example_save :: bytes where
  "example_save = example_header_bytes 0 0 2 @ [3, 0, 0, 0, 3, 0, 0, 0, 1, 2, 3]"

section \<open>Packing and reading back\<close>

lemma length_le_pack: "length (le_pack n v) = n"
  by (induction n arbitrary: v) simp_all

lemma le_unpack_le_pack: "v < 256 ^ n \<Longrightarrow> le_unpack (le_pack n v) = v"
proof (induction n arbitrary: v)
  case 0
  then show ?case by simp
next
  case (Suc n)
  have "v div 256 < 256 ^ n"
    using Suc.prems by (simp add: less_mult_imp_div_less mult.commute)
  then have "le_unpack (le_pack n (v div 256)) = v div 256"
    by (rule Suc.IH)
  moreover have "unat (of_nat (v mod 256) :: byte) = v mod 256"
    by (simp add: unat_of_nat)
  ultimately show ?case by simp
qed

lemma le_unpack_less: "le_unpack bs < 256 ^ length bs"
proof (induction bs)
  case Nil
  then show ?case by simp
next
  case (Cons b bs)
  have "unat b < 256" using unsigned_less [of b, where ?'a=nat] by simp
  with Cons show ?case by simp
qed

lemma le_pack_le_unpack: "le_pack (length bs) (le_unpack bs) = bs"
proof (induction bs)
  case Nil
  then show ?case by simp
next
  case (Cons b bs)
  have b: "unat b < 256" using unsigned_less [of b, where ?'a=nat] by simp
  then have "(unat b + 256 * le_unpack bs) mod 256 = unat b"
    by simp
  moreover have "(unat b + 256 * le_unpack bs) div 256 = le_unpack bs"
    using b by simp
  ultimately show ?case using Cons by simp
qed

lemma f_read_append: "length a = n \<Longrightarrow> f_read n (a @ s) = Inr (a, s)"
  by (simp add: f_read_def)

lemma read_uint32_pack:
  "v < 2 ^ 32 \<Longrightarrow> read_uint32 (le_pack 4 v @ s) = Inr (v, s)"
  using le_unpack_le_pack [of v 4]
  by (simp add: read_uint32_def rbind_def f_read_def length_le_pack rreturn_def)

lemma read_uint16_pack:
  "v < 2 ^ 16 \<Longrightarrow> read_uint16 (le_pack 2 v @ s) = Inr (v, s)"
  using le_unpack_le_pack [of v 2]
  by (simp add: read_uint16_def rbind_def f_read_def length_le_pack rreturn_def)

lemma read_uint64_pack:
  "v < 2 ^ 64 \<Longrightarrow> read_uint64 (le_pack 8 v @ s) = Inr (v, s)"
  using le_unpack_le_pack [of v 8]
  by (simp add: read_uint64_def rbind_def f_read_def length_le_pack rreturn_def)

lemma read_wstring_pack:
  "length w < 2 ^ 16 \<Longrightarrow> read_wstring (le_pack 2 (length w) @ w @ s) = Inr (w, s)"
  by (simp add: read_wstring_def rbind_def read_uint16_pack f_read_def rreturn_def)

lemma read_uint32_Inr:
  "read_uint32 s = Inr (v, s') \<longleftrightarrow> 4 \<le> length s \<and> v = le_unpack (take 4 s) \<and> s' = drop 4 s"
  by (auto simp: read_uint32_def rbind_def f_read_def rreturn_def rraise_def)

lemma read_uint16_Inr:
  "read_uint16 s = Inr (v, s') \<longleftrightarrow> 2 \<le> length s \<and> v = le_unpack (take 2 s) \<and> s' = drop 2 s"
  by (auto simp: read_uint16_def rbind_def f_read_def rreturn_def rraise_def)

lemma read_uint64_Inr:
  "read_uint64 s = Inr (v, s') \<longleftrightarrow> 8 \<le> length s \<and> v = le_unpack (take 8 s) \<and> s' = drop 8 s"
  by (auto simp: read_uint64_def rbind_def f_read_def rreturn_def rraise_def)

lemma read_wstring_Inr:
  "read_wstring s = Inr (w, s') \<longleftrightarrow>
     2 \<le> length s \<and> 2 + le_unpack (take 2 s) \<le> length s \<and>
     w = take (le_unpack (take 2 s)) (drop 2 s) \<and> s' = drop (2 + le_unpack (take 2 s)) s"
  by (auto simp: read_wstring_def rbind_def read_uint16_def f_read_def rreturn_def rraise_def add.commute
      split: sum.splits if_splits)

subsection \<open>The header\<close>

lemma rbind_InrE:
  assumes "rbind m k s = Inr (v, s')"
  obtains u t where "m s = Inr (u, t)" and "k u t = Inr (v, s')"
  using assms by (auto simp: rbind_def split: sum.splits)

lemma rbind_Inr: "m s = Inr (u, t) \<Longrightarrow> rbind m k s = k u t"
  by (simp add: rbind_def)

lemma read_uint32_D:
  assumes "read_uint32 s = Inr (v, s')"
  shows "s = le_pack 4 v @ s'" and "v < 2 ^ 32"
proof -
  from assms have l: "4 \<le> length s" and v: "v = le_unpack (take 4 s)" and s': "s' = drop 4 s"
    by (simp_all add: read_uint32_Inr)
  from l have "length (take 4 s) = 4" by simp
  with le_pack_le_unpack [of "take 4 s"] have "le_pack 4 v = take 4 s" by (simp add: v)
  then show "s = le_pack 4 v @ s'" by (simp add: s')
  from l le_unpack_less [of "take 4 s"] show "v < 2 ^ 32" by (simp add: v)
qed

lemma read_uint16_D:
  assumes "read_uint16 s = Inr (v, s')"
  shows "s = le_pack 2 v @ s'" and "v < 2 ^ 16"
proof -
  from assms have l: "2 \<le> length s" and v: "v = le_unpack (take 2 s)" and s': "s' = drop 2 s"
    by (simp_all add: read_uint16_Inr)
  from l have "length (take 2 s) = 2" by simp
  with le_pack_le_unpack [of "take 2 s"] have "le_pack 2 v = take 2 s" by (simp add: v)
  then show "s = le_pack 2 v @ s'" by (simp add: s')
  from l le_unpack_less [of "take 2 s"] show "v < 2 ^ 16" by (simp add: v)
qed

lemma read_uint64_D:
  assumes "read_uint64 s = Inr (v, s')"
  shows "s = le_pack 8 v @ s'" and "v < 2 ^ 64"
proof -
  from assms have l: "8 \<le> length s" and v: "v = le_unpack (take 8 s)" and s': "s' = drop 8 s"
    by (simp_all add: read_uint64_Inr)
  from l have "length (take 8 s) = 8" by simp
  with le_pack_le_unpack [of "take 8 s"] have "le_pack 8 v = take 8 s" by (simp add: v)
  then show "s = le_pack 8 v @ s'" by (simp add: s')
  from l le_unpack_less [of "take 8 s"] show "v < 2 ^ 64" by (simp add: v)
qed

lemma read_wstring_D:
  assumes "read_wstring s = Inr (w, s')"
  shows "s = le_pack 2 (length w) @ w @ s'" and "length w < 2 ^ 16"
proof -
  from assms obtain n t where n: "read_uint16 s = Inr (n, t)"
    and r: "rbind (f_read n) (\<lambda>data. if length data \<noteq> n then rraise NotEnoughData_wstring
       else rreturn data) t = Inr (w, s')"
    unfolding read_wstring_def by (erule rbind_InrE)
  from r have w: "w = take n t" and s': "s' = drop n t" and l: "length w = n"
    by (auto simp: rbind_def f_read_def rraise_def rreturn_def split: if_splits)
  from read_uint16_D [OF n] have "s = le_pack 2 n @ t" and "n < 2 ^ 16" by simp_all
  with l have "s = le_pack 2 (length w) @ t" and "length w < 2 ^ 16" by simp_all
  moreover have "t = w @ s'" by (simp add: w s')
  ultimately show "s = le_pack 2 (length w) @ w @ s'" and "length w < 2 ^ 16"
    by simp_all
qed

lemma f_read_D:
  assumes "f_read n s = Inr (d, s')"
  shows "s = d @ s'" and "length d \<le> n" and "s' \<noteq> [] \<Longrightarrow> length d = n"
  using assms by (auto simp: f_read_def split: if_splits)

lemma read_magic_D:
  assumes "f_read 13 s = Inr (MAGIC, s')"
  shows "s = MAGIC @ s'"
  using f_read_D(1) [OF assms] .

lemma le_pack_not_Nil: "0 < n \<Longrightarrow> le_pack n v \<noteq> []"
  using length_le_pack [of n v] by auto

lemma read_header_D:
  assumes "read_header b = Inr (h, rest)"
  shows "wf_header h" and "b = header_bytes h @ rest"
proof -
  from assms obtain magic s0 hsz s1 ver s2 where
    m: "f_read 13 b = Inr (magic, s0)" and mm: "magic = MAGIC"
    and r1: "read_uint32 s0 = Inr (hsz, s1)"
    and r2: "read_uint32 s1 = Inr (ver, s2)" and vv: "ver = 12"
    and k2: "rbind read_uint32 (\<lambda>num.
     rbind read_wstring (\<lambda>name.
     rbind read_uint32 (\<lambda>lvl.
     rbind read_wstring (\<lambda>loc.
     rbind read_wstring (\<lambda>date.
     rbind read_wstring (\<lambda>race.
     rbind read_uint16 (\<lambda>sex.
     rbind (f_read 4) (\<lambda>cur.
     rbind (f_read 4) (\<lambda>lvlup.
     rbind read_uint64 (\<lambda>ft.
     rbind read_uint32 (\<lambda>w.
     rbind read_uint32 (\<lambda>h.
     rbind read_uint16 (\<lambda>tag.
     rreturn \<lparr>headerSize = hsz, version = ver, saveNumber = num, playerName = name,
       playerLevel = lvl, playerLocation = loc, gameDate = date,
       playerRaceEditorId = race, playerSex = sex, playerCurExp = cur,
       playerLvlUpExp = lvlup, filetime = ft, shotWidth = w, shotHeight = h,
       compressionType = tag\<rparr>))))))))))))) s2 = Inr (h, rest)"
    unfolding read_header_def
    by (elim rbind_InrE) (auto simp: rraise_def split: if_splits elim!: rbind_InrE)
  from k2 obtain num s3 name s4 lvl s5 loc s6 date s7 race s8 sex s9 cur s10 lvlup s11
      ft s12 w s13 ht s14 tag where
    r3: "read_uint32 s2 = Inr (num, s3)" and r4: "read_wstring s3 = Inr (name, s4)"
    and r5: "read_uint32 s4 = Inr (lvl, s5)" and r6: "read_wstring s5 = Inr (loc, s6)"
    and r7: "read_wstring s6 = Inr (date, s7)" and r8: "read_wstring s7 = Inr (race, s8)"
    and r9: "read_uint16 s8 = Inr (sex, s9)" and r10: "f_read 4 s9 = Inr (cur, s10)"
    and r11: "f_read 4 s10 = Inr (lvlup, s11)" and r12: "read_uint64 s11 = Inr (ft, s12)"
    and r13: "read_uint32 s12 = Inr (w, s13)" and r14: "read_uint32 s13 = Inr (ht, s14)"
    and r15: "read_uint16 s14 = Inr (tag, rest)"
    and h: "h = \<lparr>headerSize = hsz, version = ver, saveNumber = num, playerName = name,
       playerLevel = lvl, playerLocation = loc, gameDate = date,
       playerRaceEditorId = race, playerSex = sex, playerCurExp = cur,
       playerLvlUpExp = lvlup, filetime = ft, shotWidth = w, shotHeight = ht,
       compressionType = tag\<rparr>"
    by (elim rbind_InrE) (auto simp: rreturn_def)
  have n11: "s11 \<noteq> []" using read_uint64_D(1) [OF r12] le_pack_not_Nil [of 8 ft] by auto
  have n10: "s10 \<noteq> []" using f_read_D(1) [OF r11] n11 by auto
  have lc: "length cur = 4" using f_read_D(3) [OF r10 n10] .
  have ll: "length lvlup = 4" using f_read_D(3) [OF r11 n11] .
  show "wf_header h"
    unfolding wf_header_def h
    using read_uint32_D(2) [OF r1] read_uint32_D(2) [OF r3] read_wstring_D(2) [OF r4]
      read_uint32_D(2) [OF r5] read_wstring_D(2) [OF r6] read_wstring_D(2) [OF r7]
      read_wstring_D(2) [OF r8] read_uint16_D(2) [OF r9] read_uint64_D(2) [OF r12]
      read_uint32_D(2) [OF r13] read_uint32_D(2) [OF r14] read_uint16_D(2) [OF r15] lc ll vv
    by simp
  show "b = header_bytes h @ rest"
    unfolding header_bytes_def h
    using f_read_D(1) [OF m] mm read_uint32_D(1) [OF r1] read_uint32_D(1) [OF r2]
      read_uint32_D(1) [OF r3] read_wstring_D(1) [OF r4]
      read_uint32_D(1) [OF r5] read_wstring_D(1) [OF r6] read_wstring_D(1) [OF r7]
      read_wstring_D(1) [OF r8] read_uint16_D(1) [OF r9] f_read_D(1) [OF r10]
      f_read_D(1) [OF r11] read_uint64_D(1) [OF r12]
      read_uint32_D(1) [OF r13] read_uint32_D(1) [OF r14] read_uint16_D(1) [OF r15]
    by simp
qed

lemma rbind_f_read_append: "length a = n \<Longrightarrow> rbind (f_read n) k (a @ s) = k a s"
  by (simp add: rbind_def f_read_append)

lemma rbind_read_uint32_pack: "v < 2 ^ 32 \<Longrightarrow> rbind read_uint32 k (le_pack 4 v @ s) = k v s"
  by (simp add: rbind_def read_uint32_pack)

lemma rbind_read_uint16_pack: "v < 2 ^ 16 \<Longrightarrow> rbind read_uint16 k (le_pack 2 v @ s) = k v s"
  by (simp add: rbind_def read_uint16_pack)

lemma rbind_read_uint64_pack: "v < 2 ^ 64 \<Longrightarrow> rbind read_uint64 k (le_pack 8 v @ s) = k v s"
  by (simp add: rbind_def read_uint64_pack)

lemma rbind_read_wstring_pack:
  "length w < 2 ^ 16 \<Longrightarrow> rbind read_wstring k (le_pack 2 (length w) @ w @ s) = k w s"
  by (simp add: rbind_def read_wstring_pack)

lemma read_header_bytes:
  assumes "wf_header h"
  shows "read_header (header_bytes h @ x) = Inr (h, x)"
proof -
  have m: "rbind (f_read 13) k (MAGIC @ s) = k MAGIC s" for s and k :: "bytes \<Rightarrow> ess_header reader"
    by (rule rbind_f_read_append) (simp add: MAGIC_def)
  show ?thesis
    using assms unfolding wf_header_def read_header_def header_bytes_def
    by (simp add: m rbind_f_read_append rbind_read_uint32_pack rbind_read_uint16_pack
        rbind_read_uint64_pack rbind_read_wstring_pack rreturn_def)
qed

subsection \<open>Which errors the decoder raises\<close>

lemma rbind_Inl_iff:
  "rbind m k s = Inl e \<longleftrightarrow> m s = Inl e \<or> (\<exists>u t. m s = Inr (u, t) \<and> k u t = Inl e)"
  by (auto simp: rbind_def split: sum.splits)

lemma read_uint32_Inl: "read_uint32 s = Inl e \<longleftrightarrow> length s < 4 \<and> e = NotEnoughData_uint32"
  by (auto simp: read_uint32_def rbind_def f_read_def rreturn_def rraise_def)

lemma read_uint16_Inl: "read_uint16 s = Inl e \<longleftrightarrow> length s < 2 \<and> e = NotEnoughData_uint16"
  by (auto simp: read_uint16_def rbind_def f_read_def rreturn_def rraise_def)

lemma read_uint64_Inl: "read_uint64 s = Inl e \<longleftrightarrow> length s < 8 \<and> e = NotEnoughData_uint64"
  by (auto simp: read_uint64_def rbind_def f_read_def rreturn_def rraise_def)

lemma f_read_Inl_iff:
  "f_read n s = Inl e \<longleftrightarrow> 2 ^ 63 \<le> n \<and> length s < n \<and> e = OverflowError"
  by (auto simp: f_read_def)

lemma f_read_fits:
  "n < 2 ^ 63 \<or> n \<le> length s \<Longrightarrow> f_read n s = Inr (take n s, drop n s)"
  by (auto simp: f_read_def)


lemma read_wstring_Inl:
  assumes "read_wstring s = Inl e"
  shows "e = NotEnoughData_uint16 \<or> e = NotEnoughData_wstring"
proof (cases "read_uint16 s")
  case (Inl e')
  then have "e' = NotEnoughData_uint16" by (simp add: read_uint16_Inl)
  with assms Inl show ?thesis by (simp add: read_wstring_def rbind_def)
next
  case (Inr x)
  obtain n t where x: "x = (n, t)" by (cases x)
  from read_uint16_D(2) [OF Inr [unfolded x]] have "n < 2 ^ 63"
    by (rule less_trans) simp
  then have "f_read n t = Inr (take n t, drop n t)" by (simp add: f_read_fits)
  then show ?thesis
    using assms Inr x
    by (auto simp: read_wstring_def rbind_def rreturn_def rraise_def split: if_splits)
qed

lemma read_header_Inl_cases:
  assumes "read_header b = Inl e"
  shows "(e = InvalidMagic \<and> take 13 b \<noteq> MAGIC)
     \<or> (e = UnsupportedVersion \<and> take 13 b = MAGIC \<and> 21 \<le> length b \<and> version_field b \<noteq> 12)
     \<or> (kind_of e = TruncatedInput \<and> take 13 b = MAGIC)"
  using assms unfolding read_header_def version_field_def
  by (auto simp: rbind_Inl_iff read_uint32_Inl read_uint16_Inl read_uint64_Inl f_read_Inl_iff
      read_uint32_Inr rreturn_def rraise_def f_read_def
      dest!: read_wstring_Inl split: if_splits)



lemma ESS_init_Inl_iff:
  "ESS_init d b = Inl e \<longleftrightarrow>
     read_header b = Inl e \<or> (\<exists>h s. read_header b = Inr (h, s) \<and> read_body d h s = Inl e)"
  by (auto simp: ESS_init_def rbind_def split: sum.splits)

lemma ESS_init_Inr_iff:
  "ESS_init d b = Inr r \<longleftrightarrow>
     (\<exists>h s s'. read_header b = Inr (h, s) \<and> read_body d h s = Inr (r, s'))"
  by (auto simp: ESS_init_def rbind_def split: sum.splits)




text \<open>
  Claim C8. The conversion returns the floor of \<open>(ft - 116444736000000000) / 10000000\<close>,
  for every integer and so for every 64-bit FILETIME; the method of the record applies it
  to the record's \<open>filetime\<close>.
\<close>

theorem filetime_to_epoch_seconds:
  "windows_filetime_to_unix_second ft = \<lfloor>(real_of_int ft - 116444736000000000) / 10000000\<rfloor>
   \<and> windows_filetime_to_unix_second ft = (ft - 116444736000000000) div 10000000
   \<and> get_filetime_as_posix_seconds r
       = \<lfloor>(real (filetime r) - 116444736000000000) / 10000000\<rfloor>"
proof -
  have d: "windows_filetime_to_unix_second x = (x - 116444736000000000) div 10000000" for x
    by (simp add: windows_filetime_to_unix_second_def EPOCH_AS_FILETIME_def)
  have f: "\<lfloor>(real_of_int x - 116444736000000000) / 10000000\<rfloor>
      = (x - 116444736000000000) div 10000000" for x
    using floor_divide_of_int_eq [of "x - 116444736000000000" 10000000, where ?'a = real]
    by simp
  show ?thesis
    using f [of "int (filetime r)"] by (simp add: d f get_filetime_as_posix_seconds_def)
qed

subsection \<open>Concrete inputs\<close>

lemma le_pack_2: "le_pack 2 v = [of_nat (v mod 256), of_nat (v div 256 mod 256)]"
proof -
  have "(2::nat) = Suc (Suc 0)" by simp
  then show ?thesis by (simp only: le_pack.simps)
qed

lemma le_pack_4:
  "le_pack 4 v = [of_nat (v mod 256), of_nat (v div 256 mod 256),
     of_nat (v div 256 div 256 mod 256), of_nat (v div 256 div 256 div 256 mod 256)]"
proof -
  have "(4::nat) = Suc (Suc (Suc (Suc 0)))" by simp
  then show ?thesis by (simp only: le_pack.simps)
qed

lemma le_pack_8:
  "le_pack 8 v = [of_nat (v mod 256), of_nat (v div 256 mod 256),
     of_nat (v div 256 div 256 mod 256), of_nat (v div 256 div 256 div 256 mod 256),
     of_nat (v div 256 div 256 div 256 div 256 mod 256),
     of_nat (v div 256 div 256 div 256 div 256 div 256 mod 256),
     of_nat (v div 256 div 256 div 256 div 256 div 256 div 256 mod 256),
     of_nat (v div 256 div 256 div 256 div 256 div 256 div 256 div 256 mod 256)]"
proof -
  have "(8::nat) = Suc (Suc (Suc (Suc (Suc (Suc (Suc (Suc 0)))))))" by simp
  then show ?thesis by (simp only: le_pack.simps)
qed

lemma example_header_bytes_eq:
  "w < 256 \<Longrightarrow> h < 256 \<Longrightarrow> tag < 256 \<Longrightarrow>
   header_bytes (example_header w h tag) = example_header_bytes (of_nat w) (of_nat h) (of_nat tag)"
  by (simp add: header_bytes_def example_header_def example_header_bytes_def MAGIC_def
      le_pack_2 le_pack_4 le_pack_8)

lemma wf_example_header:
  "w < 2 ^ 32 \<Longrightarrow> h < 2 ^ 32 \<Longrightarrow> tag < 2 ^ 16 \<Longrightarrow> wf_header (example_header w h tag)"
  by (simp add: wf_header_def example_header_def)

lemma example_header_bytes_0_0_0:
  "example_header_bytes 0 0 0 = header_bytes (example_header 0 0 0)"
  using example_header_bytes_eq [of 0 0 0] by simp

lemma example_header_bytes_0_0_1:
  "example_header_bytes 0 0 1 = header_bytes (example_header 0 0 1)"
  using example_header_bytes_eq [of 0 0 1] by simp

lemma example_header_bytes_0_0_2:
  "example_header_bytes 0 0 2 = header_bytes (example_header 0 0 2)"
  using example_header_bytes_eq [of 0 0 2] by simp

lemma example_header_bytes_1_1_0:
  "example_header_bytes 1 1 0 = header_bytes (example_header 1 1 0)"
  using example_header_bytes_eq [of 1 1 0] by simp



lemma read_example_header:
  "w < 256 \<Longrightarrow> h < 256 \<Longrightarrow> tag < 256 \<Longrightarrow>
   read_header (example_header_bytes (of_nat w) (of_nat h) (of_nat tag) @ x)
     = Inr (example_header w h tag, x)"
  using read_header_bytes [of "example_header w h tag" x] wf_example_header [of w h tag]
  by (simp add: example_header_bytes_eq)



subsection \<open>The payload\<close>

lemma read_body_compressed:
  assumes "compressionType h = 2"
    and "read_uint32 (drop (4 * shotWidth h * shotHeight h) s) = Inr (ulen, s2)"
    and "read_uint32 s2 = Inr (clen, s3)"
  shows "read_body d h s =
     (case d s3 ulen of
        None \<Rightarrow> Inl LZ4BlockError
      | Some blob \<Rightarrow>
          if length blob \<noteq> ulen then Inl WrongUncompressedSize
          else Inr (with_body h (take (4 * shotWidth h * shotHeight h) s)
                 (Some ulen) (Some clen) blob, []))"
proof -
  from assms(2) have "4 \<le> length (drop (4 * shotWidth h * shotHeight h) s)"
    by (simp add: read_uint32_Inr)
  then have "4 * shotWidth h * shotHeight h \<le> length s" by simp
  then have "f_read (4 * shotWidth h * shotHeight h) s
      = Inr (take (4 * shotWidth h * shotHeight h) s, drop (4 * shotWidth h * shotHeight h) s)"
    by (simp add: f_read_fits)
  then show ?thesis
    using assms
    by (simp add: read_body_def rbind_def f_read_all_def rraise_def rreturn_def
        split: option.splits)
qed

lemma read_body_stored:
  assumes "compressionType h = 0"
    and "4 * shotWidth h * shotHeight h < 2 ^ 63 \<or> 4 * shotWidth h * shotHeight h \<le> length s"
  shows "read_body d h s =
     Inr (with_body h (take (4 * shotWidth h * shotHeight h) s) None None
            (drop (4 * shotWidth h * shotHeight h) s), [])"
  using assms(1) f_read_fits [OF assms(2)]
  by (simp add: read_body_def rbind_def f_read_all_def rreturn_def)

lemma ESS_init_header:
  "read_header b = Inr (h, s) \<Longrightarrow>
   ESS_init d b = (case read_body d h s of Inl e \<Rightarrow> Inl e | Inr (r, rest) \<Rightarrow> Inr r)"
  by (simp add: ESS_init_def rbind_def)

text \<open>
  Claim C5. On an input whose header carries the tag 2, \<open>ESS.__init__\<close> reads the
  declared uncompressed length and the declared compressed length, and hands all the
  bytes that remain to the block decompressor with the declared uncompressed length. It
  raises the size mismatch exactly when the output has another length, and returns the
  record otherwise: the declared compressed length and the bytes themselves are checked
  by nothing else in the decoder.
\<close>

theorem decode_compressed_size_check:
  assumes "read_header b = Inr (h, s)" and "compressionType h = 2"
    and "read_uint32 (drop (4 * shotWidth h * shotHeight h) s) = Inr (ulen, s2)"
    and "read_uint32 s2 = Inr (clen, s3)"
  shows "ESS_init d b =
     (case d s3 ulen of
        None \<Rightarrow> Inl LZ4BlockError
      | Some blob \<Rightarrow>
          if length blob \<noteq> ulen then Inl WrongUncompressedSize
          else Inr (with_body h (take (4 * shotWidth h * shotHeight h) s)
                 (Some ulen) (Some clen) blob))
     \<and> kind_of WrongUncompressedSize = SizeMismatch"
  using assms
  by (simp add: ESS_init_header read_body_compressed split: option.splits)

theorem decode_compressed_size_check_witness:
  "ESS_init stored_decompress
      (example_header_bytes 0 0 2 @ [5, 0, 0, 0, 3, 0, 0, 0, 1, 2, 3])
     = Inl WrongUncompressedSize
   \<and> ESS_init stored_decompress
      (example_header_bytes 0 0 2 @ [3, 0, 0, 0, 99, 0, 0, 0, 1, 2, 3])
     = Inr (with_body (example_header 0 0 2) [] (Some 3) (Some 99) [1, 2, 3])
   \<and> ESS_init stored_decompress
      (example_header_bytes 0 0 2 @ [2, 0, 0, 0, 3, 0, 0, 0, 1, 2, 3])
     = Inl LZ4BlockError"
proof -
  have h: "read_header (example_header_bytes 0 0 2 @ x) = Inr (example_header 0 0 2, x)" for x
    using read_example_header [of 0 0 2 x] by simp
  have c: "compressionType (example_header 0 0 2) = 2"
    and z: "4 * shotWidth (example_header 0 0 2) * shotHeight (example_header 0 0 2) = 0"
    by (simp_all add: example_header_def)
  have u: "read_uint32 (a # b # c # e # x) = Inr (le_unpack [a, b, c, e], x)" for a b c e x
    by (simp add: read_uint32_Inr)
  have 1: "ESS_init stored_decompress
      (example_header_bytes 0 0 2 @ [5, 0, 0, 0, 3, 0, 0, 0, 1, 2, 3]) = Inl WrongUncompressedSize"
    using decode_compressed_size_check [OF h c, of _ 5 "[3, 0, 0, 0, 1, 2, 3]" 3 "[1, 2, 3]"
        stored_decompress]
    by (simp add: z u stored_decompress_def)
  have 2: "ESS_init stored_decompress
      (example_header_bytes 0 0 2 @ [3, 0, 0, 0, 99, 0, 0, 0, 1, 2, 3])
     = Inr (with_body (example_header 0 0 2) [] (Some 3) (Some 99) [1, 2, 3])"
    using decode_compressed_size_check [OF h c, of _ 3 "[99, 0, 0, 0, 1, 2, 3]" 99 "[1, 2, 3]"
        stored_decompress]
    by (simp add: z u stored_decompress_def)
  have 3: "ESS_init stored_decompress
      (example_header_bytes 0 0 2 @ [2, 0, 0, 0, 3, 0, 0, 0, 1, 2, 3]) = Inl LZ4BlockError"
    using decode_compressed_size_check [OF h c, of _ 2 "[3, 0, 0, 0, 1, 2, 3]" 3 "[1, 2, 3]"
        stored_decompress]
    by (simp add: z u stored_decompress_def)
  from 1 2 3 show ?thesis by simp
qed

subsection \<open>The header size\<close>

lemma read_header_split:
  "read_header b =
     (if take 13 b \<noteq> MAGIC then Inl InvalidMagic
      else rbind read_uint32 read_header_after_size (drop 13 b))"
  unfolding read_header_def read_header_after_size_def
  by (simp add: rbind_def f_read_def rraise_def)

lemma read_header_after_size_cong:
  "read_header_after_size v s =
     (case read_header_after_size v0 s of
        Inl e \<Rightarrow> Inl e
      | Inr (h, t) \<Rightarrow> Inr (h\<lparr>headerSize := v\<rparr>, t))"
  unfolding read_header_after_size_def
  by (auto simp: rbind_def rreturn_def rraise_def split: sum.splits if_splits)

lemma read_body_headerSize:
  "read_body d (h\<lparr>headerSize := v\<rparr>) s =
     (case read_body d h s of
        Inl e \<Rightarrow> Inl e
      | Inr (r, t) \<Rightarrow> Inr (r\<lparr>headerSize := v\<rparr>, t))"
  by (auto simp: read_body_def rbind_def rreturn_def rraise_def f_read_def f_read_all_def
      with_body_def split: sum.splits if_splits option.splits)

lemma read_header_headerSize:
  assumes "17 \<le> length b" and "v < 2 ^ 32"
  shows "read_header (take 13 b @ le_pack 4 v @ drop 17 b) =
     (case read_header b of
        Inl e \<Rightarrow> Inl e
      | Inr (h, t) \<Rightarrow> Inr (h\<lparr>headerSize := v\<rparr>, t))"
proof -
  let ?b = "take 13 b @ le_pack 4 v @ drop 17 b"
  have t: "take 13 ?b = take 13 b" and d: "drop 13 ?b = le_pack 4 v @ drop 17 b"
    using assms(1) by simp_all
  have o: "rbind read_uint32 read_header_after_size (drop 13 b)
      = read_header_after_size (le_unpack (take 4 (drop 13 b))) (drop 17 b)"
  proof -
    have "read_uint32 (drop 13 b) = Inr (le_unpack (take 4 (drop 13 b)), drop 17 b)"
      using assms(1) by (simp add: read_uint32_Inr)
    then show ?thesis by (simp add: rbind_def)
  qed
  show ?thesis
    unfolding read_header_split [of ?b] read_header_split [of b] t d o
    using assms(2)
      read_header_after_size_cong [of v "drop 17 b" "le_unpack (take 4 (drop 13 b))"]
    by (simp add: rbind_read_uint32_pack)
qed


subsection \<open>The encoders\<close>

lemma header_chunks_Inr:
  assumes "header_chunks r tag = Inr x"
  shows "x = header_bytes ((header_of r)\<lparr>compressionType := tag\<rparr>)" and "headerSize r < 2 ^ 32"
  using assms
  by (auto simp: header_chunks_def ebind_def pack_uint32_def pack_uint16_def pack_uint64_def
      pack_wstring_def header_bytes_def header_of_def split: sum.splits if_splits)

lemma header_chunks_wf:
  assumes "wf_header (header_of r)" and "tag < 2 ^ 16"
  shows "header_chunks r tag = Inr (header_bytes ((header_of r)\<lparr>compressionType := tag\<rparr>))"
  using assms
  by (simp add: header_chunks_def ebind_def pack_uint32_def pack_uint16_def pack_uint64_def
      pack_wstring_def header_bytes_def header_of_def wf_header_def)

lemma header_bytes_prefix:
  "take 13 (header_bytes h @ x) = MAGIC"
  "take 4 (drop 13 (header_bytes h @ x)) = le_pack 4 (headerSize h)"
  by (simp_all add: header_bytes_def MAGIC_def length_le_pack)

lemma get_uncompressed_Inr:
  assumes "get_uncompressed r = Inr u"
  shows "u = header_bytes ((header_of r)\<lparr>compressionType := 0\<rparr>)
           @ screenshotData r @ uncompressedBlob r"
    and "headerSize r < 2 ^ 32"
  using assms header_chunks_Inr [of r 0]
  by (auto simp: get_uncompressed_def ebind_def split: sum.splits)

lemma get_compressed_Inr:
  assumes "get_compressed c r = Inr z"
  shows "\<exists>cb. c (uncompressedBlob r) = Some cb \<and> length cb < 2 ^ 32
           \<and> length (uncompressedBlob r) < 2 ^ 32
           \<and> z = header_bytes ((header_of r)\<lparr>compressionType := 2\<rparr>) @ screenshotData r
                 @ le_pack 4 (length (uncompressedBlob r)) @ le_pack 4 (length cb) @ cb"
    and "headerSize r < 2 ^ 32"
  using assms header_chunks_Inr [of r 2]
  by (auto simp: get_compressed_def ebind_def pack_uint32_def
      split: sum.splits option.splits if_splits)

lemma get_uncompressed_wf:
  assumes "wf_header (header_of r)"
  shows "get_uncompressed r = Inr (header_bytes ((header_of r)\<lparr>compressionType := 0\<rparr>)
           @ screenshotData r @ uncompressedBlob r)"
  using header_chunks_wf [OF assms, of 0] by (simp add: get_uncompressed_def ebind_def)

lemma get_compressed_wf:
  assumes "wf_header (header_of r)" and "length (uncompressedBlob r) < 2 ^ 32"
    and "c (uncompressedBlob r) = Some cb" and "length cb < 2 ^ 32"
  shows "get_compressed c r = Inr (header_bytes ((header_of r)\<lparr>compressionType := 2\<rparr>)
           @ screenshotData r @ le_pack 4 (length (uncompressedBlob r))
           @ le_pack 4 (length cb) @ cb)"
  using header_chunks_wf [OF assms(1), of 2] assms(2-)
  by (simp add: get_compressed_def ebind_def pack_uint32_def)

subsection \<open>The declared compressed length\<close>

lemma read_uint32_append:
  "length a = 4 \<Longrightarrow> read_uint32 (a @ s) = Inr (le_unpack a, s)"
  by (simp add: read_uint32_Inr)

lemma decode_compressed_bytes:
  assumes "wf_header h" and "compressionType h = 2"
    and "length shot = 4 * shotWidth h * shotHeight h" and "length ul = 4" and "length cl = 4"
  shows "ESS_init d (header_bytes h @ shot @ ul @ cl @ post) =
     (case d post (le_unpack ul) of
        None \<Rightarrow> Inl LZ4BlockError
      | Some blob \<Rightarrow>
          if length blob \<noteq> le_unpack ul then Inl WrongUncompressedSize
          else Inr (with_body h shot (Some (le_unpack ul)) (Some (le_unpack cl)) blob))"
proof -
  have h: "read_header (header_bytes h @ shot @ ul @ cl @ post) = Inr (h, shot @ ul @ cl @ post)"
    using assms(1) by (rule read_header_bytes)
  have u: "read_uint32 (drop (4 * shotWidth h * shotHeight h) (shot @ ul @ cl @ post))
      = Inr (le_unpack ul, cl @ post)"
    using assms(3,4) by (simp add: read_uint32_append)
  have c: "read_uint32 (cl @ post) = Inr (le_unpack cl, post)"
    using assms(5) by (rule read_uint32_append)
  have t: "take (4 * shotWidth h * shotHeight h) (shot @ ul @ cl @ post) = shot"
    using assms(3) by simp
  show ?thesis
    unfolding ESS_init_header [OF h] read_body_compressed [OF assms(2) u c] t
    by (simp split: option.splits)
qed

text \<open>
  Claim C9. Two inputs with the tag 2 that differ in the four bytes of the declared
  compressed length only: the decoder raises the same exception on both, or returns two
  records that differ in \<open>compressedLen\<close> only. Neither encoder reads that field, so the
  bytes they produce from the two records are the same.
\<close>

theorem compressedLen_not_read_back:
  assumes "read_header b = Inr (h, shot @ ul @ cl @ post)" and "compressionType h = 2"
    and "length shot = 4 * shotWidth h * shotHeight h"
    and "length ul = 4" and "length cl = 4" and "length cl' = 4"
  shows "b = header_bytes h @ shot @ ul @ cl @ post
     \<and> ESS_init d (header_bytes h @ shot @ ul @ cl' @ post) =
        (case ESS_init d b of
           Inl e \<Rightarrow> Inl e
         | Inr r \<Rightarrow> Inr (r\<lparr>compressedLen := Some (le_unpack cl')\<rparr>))
     \<and> get_uncompressed (r\<lparr>compressedLen := x\<rparr>) = get_uncompressed r
     \<and> get_compressed c (r\<lparr>compressedLen := x\<rparr>) = get_compressed c r"
proof -
  have w: "wf_header h" and b: "b = header_bytes h @ shot @ ul @ cl @ post"
    using read_header_D [OF assms(1)] by simp_all
  have 1: "ESS_init d (header_bytes h @ shot @ ul @ cl' @ post) =
        (case ESS_init d b of
           Inl e \<Rightarrow> Inl e
         | Inr r \<Rightarrow> Inr (r\<lparr>compressedLen := Some (le_unpack cl')\<rparr>))"
    unfolding b
    by (simp add: decode_compressed_bytes [OF w assms(2,3,4)] assms(5,6) with_body_def
        split: option.splits)
  have 2: "get_uncompressed (r\<lparr>compressedLen := x\<rparr>) = get_uncompressed r"
    by (simp add: get_uncompressed_def header_chunks_def)
  have "header_chunks (r\<lparr>compressedLen := x\<rparr>) t = header_chunks r t" for t
    by (simp add: header_chunks_def)
  then have 3: "get_compressed c (r\<lparr>compressedLen := x\<rparr>) = get_compressed c r"
    by (simp add: get_compressed_def cong: option.case_cong)
  from b 1 2 3 show ?thesis by simp
qed

theorem compressedLen_not_read_back_witness:
  "ESS_init stored_decompress
      (example_header_bytes 0 0 2 @ [3, 0, 0, 0] @ [3, 0, 0, 0] @ [1, 2, 3])
     = Inr (with_body (example_header 0 0 2) [] (Some 3) (Some 3) [1, 2, 3])
   \<and> ESS_init stored_decompress
      (example_header_bytes 0 0 2 @ [3, 0, 0, 0] @ [99, 0, 0, 0] @ [1, 2, 3])
     = Inr (with_body (example_header 0 0 2) [] (Some 3) (Some 99) [1, 2, 3])
   \<and> get_compressed stored_compress
        (with_body (example_header 0 0 2) [] (Some 3) (Some 99) [1, 2, 3])
     = get_compressed stored_compress
        (with_body (example_header 0 0 2) [] (Some 3) (Some 3) [1, 2, 3])"
proof -
  let ?h = "example_header 0 0 2"
  let ?b = "example_header_bytes 0 0 2 @ [3, 0, 0, 0] @ [3, 0, 0, 0] @ [1, 2, 3]"
  let ?r = "with_body ?h [] (Some 3) (Some 3) [1, 2, 3]"
  have e: "example_header_bytes 0 0 2 = header_bytes ?h"
    by (rule example_header_bytes_0_0_2)
  have h: "read_header ?b = Inr (?h, [] @ [3, 0, 0, 0] @ [3, 0, 0, 0] @ [1, 2, 3])"
    using read_example_header [of 0 0 2] by simp
  have c: "compressionType ?h = 2" and z: "length ([] :: bytes) = 4 * shotWidth ?h * shotHeight ?h"
    by (simp_all add: example_header_def)
  have w: "wf_header ?h" using wf_example_header [of 0 0 2] by simp
  have 1: "ESS_init stored_decompress ?b = Inr ?r"
    using decode_compressed_bytes [OF w c z, of "[3, 0, 0, 0]" "[3, 0, 0, 0]" stored_decompress
        "[1, 2, 3]"]
    by (simp add: e stored_decompress_def)
  have 2: "ESS_init stored_decompress
      (example_header_bytes 0 0 2 @ [3, 0, 0, 0] @ [99, 0, 0, 0] @ [1, 2, 3])
     = Inr (with_body ?h [] (Some 3) (Some 99) [1, 2, 3])"
    using compressedLen_not_read_back [OF h c z, where cl' = "[99, 0, 0, 0]"
        and d = stored_decompress] 1
    by (simp add: e with_body_def)
  have "with_body ?h [] (Some 3) (Some 99) [1, 2, 3] = ?r\<lparr>compressedLen := Some 99\<rparr>"
    by (simp add: with_body_def)
  then have 3: "get_compressed stored_compress (with_body ?h [] (Some 3) (Some 99) [1, 2, 3])
     = get_compressed stored_compress ?r"
    using compressedLen_not_read_back [OF h c z, where cl' = "[99, 0, 0, 0]"
        and r = ?r and x = "Some 99" and c = stored_compress]
    by simp
  from 1 2 3 show ?thesis by simp
qed

subsection \<open>Truncated input\<close>

lemma truncated_header_rejected:
  assumes "wf_header h" and "header_bytes h = p @ q" and "q \<noteq> []" and "13 \<le> length p"
  shows "\<exists>e. ESS_init d p = Inl e \<and> kind_of e = TruncatedInput"
proof (cases "read_header p")
  case (Inl e)
  have m: "take 13 p = MAGIC"
    using header_bytes_prefix(1) [of h "[]"] assms(2,4) by simp
  have "version_field p = 12" if "21 \<le> length p"
  proof -
    have "take 4 (drop 17 (header_bytes h)) = le_pack 4 (version h)"
      by (simp add: header_bytes_def MAGIC_def length_le_pack)
    with that assms(2) have "take 4 (drop 17 p) = le_pack 4 12"
      using assms(1) by (simp add: wf_header_def)
    then show ?thesis by (simp add: version_field_def le_unpack_le_pack)
  qed
  with read_header_Inl_cases [OF Inl] m have "kind_of e = TruncatedInput" by auto
  with Inl show ?thesis by (auto simp: ESS_init_Inl_iff)
next
  case (Inr x)
  obtain h' rest where x: "x = (h', rest)" by (cases x)
  from Inr x read_header_D [of p h' rest] have w': "wf_header h'" and p: "p = header_bytes h' @ rest"
    by simp_all
  have "read_header (header_bytes h @ []) = Inr (h, [])"
    using assms(1) by (rule read_header_bytes)
  moreover have "header_bytes h @ [] = header_bytes h' @ (rest @ q)"
    using assms(2) p by simp
  moreover have "read_header (header_bytes h' @ (rest @ q)) = Inr (h', rest @ q)"
    using w' by (rule read_header_bytes)
  ultimately have "rest @ q = []" by simp
  with assms(3) show ?thesis by simp
qed

text \<open>
  Claim C3. The reads of the two experience blobs and of the screenshot do not check
  the number of bytes they got. A file that ends inside the header, the experience blobs
  included, is rejected all the same, by the next checked read
  (\<open>truncated_header_rejected\<close>). A file with the tag 0 that ends inside the screenshot is
  accepted: here the header announces a screenshot of 1 by 1 pixels, 4 bytes, the file
  ends after 2 of them, and the decoder returns a record with a screenshot of 2 bytes and
  an empty payload.
\<close>

theorem decode_accepts_truncated_screenshot:
  "(\<forall>d. ESS_init d (example_header_bytes 1 1 0 @ [7, 7])
       = Inr (with_body (example_header 1 1 0) [7, 7] None None []))
   \<and> 4 * shotWidth (example_header 1 1 0) * shotHeight (example_header 1 1 0) = 4
   \<and> compressionType (example_header 1 1 0) = 0"
proof -
  have h: "read_header (example_header_bytes 1 1 0 @ [7, 7]) = Inr (example_header 1 1 0, [7, 7])"
    using read_example_header [of 1 1 0] by simp
  have c: "compressionType (example_header 1 1 0) = 0"
    and n: "4 * shotWidth (example_header 1 1 0) * shotHeight (example_header 1 1 0) = 4"
    by (simp_all add: example_header_def)
  have f: "4 * shotWidth (example_header 1 1 0) * shotHeight (example_header 1 1 0) < 2 ^ 63
      \<or> 4 * shotWidth (example_header 1 1 0) * shotHeight (example_header 1 1 0)
          \<le> length ([7, 7] :: bytes)"
    unfolding n by simp
  have "ESS_init d (example_header_bytes 1 1 0 @ [7, 7])
       = Inr (with_body (example_header 1 1 0) [7, 7] None None [])" for d
    unfolding ESS_init_header [OF h] read_body_stored [OF c f] n by simp
  with c n show ?thesis by simp
qed

subsection \<open>Decoding what the encoders wrote\<close>

lemma read_body_Inr_fits:
  assumes "read_body d h s = Inr (r, s')"
  shows "4 * shotWidth h * shotHeight h < 2 ^ 63 \<or> 4 * shotWidth h * shotHeight h \<le> length s"
proof (rule ccontr)
  assume "\<not> ?thesis"
  then have "f_read (4 * shotWidth h * shotHeight h) s = Inl OverflowError"
    by (simp add: f_read_def)
  with assms show False by (simp add: read_body_def rbind_def)
qed

lemma read_body_Inr_cases:
  assumes "read_body d h s = Inr (r, s')"
  shows "(compressionType h = 0
        \<and> r = with_body h (take (4 * shotWidth h * shotHeight h) s) None None
                (drop (4 * shotWidth h * shotHeight h) s))
     \<or> (compressionType h = 2 \<and> 4 * shotWidth h * shotHeight h + 8 \<le> length s
        \<and> (\<exists>ulen clen blob.
              r = with_body h (take (4 * shotWidth h * shotHeight h) s)
                    (Some ulen) (Some clen) blob
              \<and> length blob = ulen \<and> ulen < 2 ^ 32))"
proof -
  let ?n = "4 * shotWidth h * shotHeight h"
  consider (stored) "compressionType h = 0" | (compressed) "compressionType h = 2"
    | (other) "compressionType h \<noteq> 0" "compressionType h \<noteq> 2"
    by blast
  then show ?thesis
  proof cases
    case stored
    with assms show ?thesis using read_body_stored [OF stored read_body_Inr_fits [OF assms]]
      by simp
  next
    case compressed
    note f = f_read_fits [OF read_body_Inr_fits [OF assms]]
    from assms compressed obtain ulen s2 where u: "read_uint32 (drop ?n s) = Inr (ulen, s2)"
      by (auto simp: read_body_def rbind_def f split: sum.splits)
    from assms compressed u obtain clen s3 where c: "read_uint32 s2 = Inr (clen, s3)"
      by (auto simp: read_body_def rbind_def f split: sum.splits)
    from u have l: "4 \<le> length (drop ?n s)" and s2: "s2 = drop 4 (drop ?n s)"
      by (simp_all add: read_uint32_Inr)
    from c have "4 \<le> length s2" by (simp add: read_uint32_Inr)
    with s2 have "?n + 8 \<le> length s" by simp
    moreover from assms obtain blob where
      "r = with_body h (take ?n s) (Some ulen) (Some clen) blob" and "length blob = ulen"
      unfolding read_body_compressed [OF compressed u c]
      by (auto split: option.splits if_splits)
    moreover have "ulen < 2 ^ 32" using read_uint32_D(2) [OF u] .
    ultimately show ?thesis using compressed by blast
  next
    case other
    with assms show ?thesis
      by (simp add: read_body_def rbind_def f_read_def rraise_def split: if_splits)
  qed
qed

lemma header_of_with_body: "header_of (with_body h shot ul cl blob) = h"
  by (simp add: header_of_def with_body_def)

lemma ESS_init_Inr_D:
  assumes "ESS_init d b = Inr r"
  shows "wf_header (header_of r)"
    and "length (screenshotData r) = 4 * shotWidth r * shotHeight r
         \<or> (compressionType r = 0 \<and> uncompressedBlob r = []
            \<and> length (screenshotData r) < 4 * shotWidth r * shotHeight r)"
    and "compressionType r = 2 \<Longrightarrow>
           length (screenshotData r) = 4 * shotWidth r * shotHeight r
           \<and> length (uncompressedBlob r) < 2 ^ 32"
    and "4 * shotWidth r * shotHeight r < 2 ^ 63
         \<or> length (screenshotData r) = 4 * shotWidth r * shotHeight r"
proof -
  from assms obtain h s s' where h: "read_header b = Inr (h, s)"
    and bd: "read_body d h s = Inr (r, s')"
    by (auto simp: ESS_init_Inr_iff)
  let ?n = "4 * shotWidth h * shotHeight h"
  from read_body_Inr_cases [OF bd] obtain ul cl blob where
    r: "r = with_body h (take ?n s) ul cl blob"
    and k: "(compressionType h = 0 \<and> blob = drop ?n s)
         \<or> (compressionType h = 2 \<and> ?n + 8 \<le> length s \<and> length blob < 2 ^ 32)"
    by auto
  show "wf_header (header_of r)"
    using read_header_D(1) [OF h] by (simp add: r header_of_with_body)
  have sel: "shotWidth r = shotWidth h" "shotHeight r = shotHeight h"
    "compressionType r = compressionType h" "screenshotData r = take ?n s"
    "uncompressedBlob r = blob"
    by (simp_all add: r with_body_def)
  show "length (screenshotData r) = 4 * shotWidth r * shotHeight r
         \<or> (compressionType r = 0 \<and> uncompressedBlob r = []
            \<and> length (screenshotData r) < 4 * shotWidth r * shotHeight r)"
    unfolding sel using k by auto
  show "length (screenshotData r) = 4 * shotWidth r * shotHeight r
           \<and> length (uncompressedBlob r) < 2 ^ 32" if "compressionType r = 2"
    using that k unfolding sel by auto
  show "4 * shotWidth r * shotHeight r < 2 ^ 63
         \<or> length (screenshotData r) = 4 * shotWidth r * shotHeight r"
    unfolding sel using read_body_Inr_fits [OF bd] by auto
qed

lemma wf_header_tag:
  "wf_header h \<Longrightarrow> t < 2 ^ 16 \<Longrightarrow> wf_header (h\<lparr>compressionType := t\<rparr>)"
  by (simp add: wf_header_def)

lemma decode_stored_bytes:
  assumes "wf_header h" and "compressionType h = 0"
    and "length shot = 4 * shotWidth h * shotHeight h \<or> blob = []"
    and "length shot \<le> 4 * shotWidth h * shotHeight h"
    and "4 * shotWidth h * shotHeight h < 2 ^ 63 \<or> length shot = 4 * shotWidth h * shotHeight h"
  shows "ESS_init d (header_bytes h @ shot @ blob) = Inr (with_body h shot None None blob)"
proof -
  have h: "read_header (header_bytes h @ shot @ blob) = Inr (h, shot @ blob)"
    using assms(1) by (rule read_header_bytes)
  have f: "4 * shotWidth h * shotHeight h < 2 ^ 63
      \<or> 4 * shotWidth h * shotHeight h \<le> length (shot @ blob)"
    using assms(5) by auto
  have "take (4 * shotWidth h * shotHeight h) (shot @ blob) = shot"
    and "drop (4 * shotWidth h * shotHeight h) (shot @ blob) = blob"
    using assms(3,4) by auto
  then show ?thesis
    unfolding ESS_init_header [OF h] read_body_stored [OF assms(2) f] by simp
qed

lemma same_semantic_with_body:
  "same_semantic (with_body h shot ul cl blob) (with_body (h\<lparr>compressionType := t\<rparr>) shot ul' cl' blob)"
  by (simp add: same_semantic_def with_body_def)

lemma with_body_header_of:
  "with_body (header_of r) (screenshotData r) (uncompressedLen r) (compressedLen r)
     (uncompressedBlob r) = r"
  by (simp add: with_body_def header_of_def)


lemma example_header_sel [simp]:
  "shotWidth (example_header w h t) = w"
  "shotHeight (example_header w h t) = h"
  "compressionType (example_header w h t) = t"
  by (simp_all add: example_header_def)

lemma with_body_sel [simp]:
  "screenshotData (with_body h shot ul cl blob) = shot"
  "uncompressedBlob (with_body h shot ul cl blob) = blob"
  "uncompressedLen (with_body h shot ul cl blob) = ul"
  "compressedLen (with_body h shot ul cl blob) = cl"
  "shotWidth (with_body h shot ul cl blob) = shotWidth h"
  "shotHeight (with_body h shot ul cl blob) = shotHeight h"
  "compressionType (with_body h shot ul cl blob) = compressionType h"
  by (simp_all add: with_body_def)

lemma roundtrip_stored:
  assumes "ESS_init d b = Inr r"
  shows "get_uncompressed r
       = Inr (header_bytes ((header_of r)\<lparr>compressionType := 0\<rparr>)
              @ screenshotData r @ uncompressedBlob r)"
    and "ESS_init d' (header_bytes ((header_of r)\<lparr>compressionType := 0\<rparr>)
              @ screenshotData r @ uncompressedBlob r)
       = Inr (with_body ((header_of r)\<lparr>compressionType := 0\<rparr>) (screenshotData r) None None
              (uncompressedBlob r))"
proof -
  let ?h = "(header_of r)\<lparr>compressionType := 0\<rparr>"
  note D = ESS_init_Inr_D [OF assms]
  show "get_uncompressed r = Inr (header_bytes ?h @ screenshotData r @ uncompressedBlob r)"
    using D(1) by (rule get_uncompressed_wf)
  have w: "wf_header ?h" using D(1) by (simp add: wf_header_tag)
  have c: "compressionType ?h = 0" by simp
  have n: "shotWidth ?h = shotWidth r" "shotHeight ?h = shotHeight r"
    by (simp_all add: header_of_def)
  show "ESS_init d' (header_bytes ?h @ screenshotData r @ uncompressedBlob r)
       = Inr (with_body ?h (screenshotData r) None None (uncompressedBlob r))"
    using D(2,4) by (intro decode_stored_bytes [OF w c]) (auto simp: n)
qed

lemma roundtrip_compressed:
  assumes "ESS_init d b = Inr r"
    and "length (screenshotData r) = 4 * shotWidth r * shotHeight r"
    and "length (uncompressedBlob r) < 2 ^ 32"
    and "c (uncompressedBlob r) = Some cb" and "length cb < 2 ^ 32"
    and "d' cb (length (uncompressedBlob r)) = Some (uncompressedBlob r)"
  shows "get_compressed c r
       = Inr (header_bytes ((header_of r)\<lparr>compressionType := 2\<rparr>) @ screenshotData r
              @ le_pack 4 (length (uncompressedBlob r)) @ le_pack 4 (length cb) @ cb)"
    and "ESS_init d' (header_bytes ((header_of r)\<lparr>compressionType := 2\<rparr>) @ screenshotData r
              @ le_pack 4 (length (uncompressedBlob r)) @ le_pack 4 (length cb) @ cb)
       = Inr (with_body ((header_of r)\<lparr>compressionType := 2\<rparr>) (screenshotData r)
              (Some (length (uncompressedBlob r))) (Some (length cb)) (uncompressedBlob r))"
proof -
  let ?h = "(header_of r)\<lparr>compressionType := 2\<rparr>"
  note D = ESS_init_Inr_D [OF assms(1)]
  show "get_compressed c r
       = Inr (header_bytes ?h @ screenshotData r
              @ le_pack 4 (length (uncompressedBlob r)) @ le_pack 4 (length cb) @ cb)"
    using D(1) assms(3,4,5) by (rule get_compressed_wf)
  have w: "wf_header ?h" using D(1) by (simp add: wf_header_tag)
  have t: "compressionType ?h = 2" by simp
  have n: "length (screenshotData r) = 4 * shotWidth ?h * shotHeight ?h"
    using assms(2) by (simp add: header_of_def)
  have u: "le_unpack (le_pack 4 (length (uncompressedBlob r))) = length (uncompressedBlob r)"
    using assms(3) by (simp add: le_unpack_le_pack)
  have k: "le_unpack (le_pack 4 (length cb)) = length cb"
    using assms(5) by (simp add: le_unpack_le_pack)
  show "ESS_init d' (header_bytes ?h @ screenshotData r
              @ le_pack 4 (length (uncompressedBlob r)) @ le_pack 4 (length cb) @ cb)
       = Inr (with_body ?h (screenshotData r)
              (Some (length (uncompressedBlob r))) (Some (length cb)) (uncompressedBlob r))"
    unfolding decode_compressed_bytes [OF w t n length_le_pack length_le_pack] u k
    using assms(6) by simp
qed

lemma same_semantic_reencoded:
  "same_semantic r (with_body ((header_of r)\<lparr>compressionType := t\<rparr>) (screenshotData r) ul cl
     (uncompressedBlob r))"
  by (simp add: same_semantic_def with_body_def header_of_def)

text \<open>
  Claim C10. Any value of 32 bits can stand in the \<open>headerSize\<close> field of an input:
  the decoder fails as before, or returns the record it returned before with that value
  as its \<open>headerSize\<close>, so the value is neither checked nor used for any read. Both
  encoders write the \<open>headerSize\<close> of the record right after the magic, as it is:
  whatever they return starts with the magic and that value, \<open>get_uncompressed\<close> returns
  such bytes for every record that the decoder returned, and \<open>get_compressed\<close> does for
  every such record whose payload is shorter than \<open>2 ^ 32\<close> bytes and is compressed by
  the block codec to fewer than \<open>2 ^ 32\<close> bytes.
\<close>

theorem headerSize_not_validated:
  "(17 \<le> length b \<and> v < 2 ^ 32 \<longrightarrow>
      ESS_init d (take 13 b @ le_pack 4 v @ drop 17 b) = with_headerSize v (ESS_init d b))
   \<and> (get_uncompressed r = Inr u \<longrightarrow>
        take 4 (drop 13 u) = le_pack 4 (headerSize r)
        \<and> le_unpack (take 4 (drop 13 u)) = headerSize r)
   \<and> (get_compressed c r = Inr z \<longrightarrow>
        take 4 (drop 13 z) = le_pack 4 (headerSize r)
        \<and> le_unpack (take 4 (drop 13 z)) = headerSize r)
   \<and> (ESS_init d b = Inr r \<longrightarrow>
        (\<exists>u. get_uncompressed r = Inr u \<and> take 13 u = MAGIC
           \<and> take 4 (drop 13 u) = le_pack 4 (headerSize r)
           \<and> le_unpack (take 4 (drop 13 u)) = headerSize r))
   \<and> (ESS_init d b = Inr r \<and> length (uncompressedBlob r) < 2 ^ 32
        \<and> c (uncompressedBlob r) = Some cb \<and> length cb < 2 ^ 32 \<longrightarrow>
        (\<exists>z. get_compressed c r = Inr z \<and> take 13 z = MAGIC
           \<and> take 4 (drop 13 z) = le_pack 4 (headerSize r)
           \<and> le_unpack (take 4 (drop 13 z)) = headerSize r))"
proof -
  have dec: "ESS_init d (take 13 b @ le_pack 4 v @ drop 17 b) = with_headerSize v (ESS_init d b)"
    if "17 \<le> length b" and "v < 2 ^ 32"
    using read_header_headerSize [OF that]
    by (auto simp: ESS_init_def rbind_def with_headerSize_def read_body_headerSize
        split: sum.splits)
  have pre: "take 4 (drop 13 x) = le_pack 4 (headerSize r)
        \<and> le_unpack (take 4 (drop 13 x)) = headerSize r"
    if x: "x = header_bytes ((header_of r)\<lparr>compressionType := t\<rparr>) @ y"
      and b: "headerSize r < 2 ^ 32" for x t y
  proof -
    let ?h = "(header_of r)\<lparr>compressionType := t\<rparr>"
    have "take 4 (drop 13 x) = le_pack 4 (headerSize ?h)"
      unfolding x by (rule header_bytes_prefix(2))
    moreover have "headerSize ?h = headerSize r" by (simp add: header_of_def)
    ultimately have "take 4 (drop 13 x) = le_pack 4 (headerSize r)" by simp
    with le_unpack_le_pack [of "headerSize r" 4] b show ?thesis by simp
  qed
  have unc: "take 4 (drop 13 u) = le_pack 4 (headerSize r)
        \<and> le_unpack (take 4 (drop 13 u)) = headerSize r"
    if "get_uncompressed r = Inr u" for u
    using get_uncompressed_Inr [OF that] by (intro pre) simp_all
  have com: "take 4 (drop 13 z) = le_pack 4 (headerSize r)
        \<and> le_unpack (take 4 (drop 13 z)) = headerSize r"
    if "get_compressed c r = Inr z" for z
  proof -
    from get_compressed_Inr [OF that] obtain y where
      "z = header_bytes ((header_of r)\<lparr>compressionType := 2\<rparr>) @ y" and "headerSize r < 2 ^ 32"
      by auto
    then show ?thesis by (rule pre)
  qed
  have unc': "\<exists>u. get_uncompressed r = Inr u \<and> take 13 u = MAGIC
           \<and> take 4 (drop 13 u) = le_pack 4 (headerSize r)
           \<and> le_unpack (take 4 (drop 13 u)) = headerSize r"
    if "ESS_init d b = Inr r"
  proof -
    let ?u = "header_bytes ((header_of r)\<lparr>compressionType := 0\<rparr>)
           @ screenshotData r @ uncompressedBlob r"
    have g: "get_uncompressed r = Inr ?u"
      using ESS_init_Inr_D(1) [OF that] by (rule get_uncompressed_wf)
    moreover have "take 13 ?u = MAGIC" by (rule header_bytes_prefix(1))
    ultimately show ?thesis using unc [OF g] by blast
  qed
  have com': "\<exists>z. get_compressed c r = Inr z \<and> take 13 z = MAGIC
           \<and> take 4 (drop 13 z) = le_pack 4 (headerSize r)
           \<and> le_unpack (take 4 (drop 13 z)) = headerSize r"
    if "ESS_init d b = Inr r" and "length (uncompressedBlob r) < 2 ^ 32"
      and "c (uncompressedBlob r) = Some cb" and "length cb < 2 ^ 32"
  proof -
    let ?z = "header_bytes ((header_of r)\<lparr>compressionType := 2\<rparr>)
           @ screenshotData r @ le_pack 4 (length (uncompressedBlob r))
           @ le_pack 4 (length cb) @ cb"
    have g: "get_compressed c r = Inr ?z"
      using ESS_init_Inr_D(1) [OF that(1)] that(2-) by (rule get_compressed_wf)
    moreover have "take 13 ?z = MAGIC" by (rule header_bytes_prefix(1))
    ultimately show ?thesis using com [OF g] by blast
  qed
  from dec unc com unc' com' show ?thesis by blast
qed

theorem headerSize_not_validated_witness:
  "ESS_init stored_decompress
      (take 13 (example_header_bytes 0 0 0 @ [1, 2, 3]) @ le_pack 4 4294967295
        @ drop 17 (example_header_bytes 0 0 0 @ [1, 2, 3]))
     = Inr ((with_body (example_header 0 0 0) [] None None [1, 2, 3])\<lparr>headerSize := 4294967295\<rparr>)
   \<and> get_uncompressed
        ((with_body (example_header 0 0 0) [] None None [1, 2, 3])\<lparr>headerSize := 4294967295\<rparr>)
      = Inr (header_bytes ((example_header 0 0 0)\<lparr>headerSize := 4294967295\<rparr>) @ [1, 2, 3])
   \<and> take 4 (drop 13
        (header_bytes ((example_header 0 0 0)\<lparr>headerSize := 4294967295\<rparr>) @ [1, 2, 3]))
      = [255, 255, 255, 255]
   \<and> (\<exists>z. get_compressed stored_compress
          ((with_body (example_header 0 0 0) [] None None [1, 2, 3])\<lparr>headerSize := 4294967295\<rparr>)
        = Inr z
      \<and> take 13 z = MAGIC \<and> take 4 (drop 13 z) = [255, 255, 255, 255]
      \<and> le_unpack (take 4 (drop 13 z)) = 4294967295)
   \<and> (\<exists>u. get_uncompressed
          ((with_body (example_header 0 0 0) [] None None [1, 2, 3])\<lparr>headerSize := 4294967295\<rparr>)
        = Inr u
      \<and> take 13 u = MAGIC \<and> take 4 (drop 13 u) = [255, 255, 255, 255]
      \<and> le_unpack (take 4 (drop 13 u)) = 4294967295)"
proof -
  let ?b = "example_header_bytes 0 0 0 @ [1, 2, 3]"
  let ?r = "with_body (example_header 0 0 0) [] None None [1, 2, 3]"
  let ?r' = "?r\<lparr>headerSize := 4294967295\<rparr>"
  have h: "read_header ?b = Inr (example_header 0 0 0, [1, 2, 3])"
    using read_example_header [of 0 0 0] by simp
  have d: "ESS_init stored_decompress ?b = Inr ?r"
    using h by (simp add: ESS_init_header read_body_stored example_header_def)
  have l: "17 \<le> length ?b" by (simp add: example_header_bytes_def)
  have 1: "ESS_init stored_decompress (take 13 ?b @ le_pack 4 4294967295 @ drop 17 ?b) = Inr ?r'"
    using headerSize_not_validated [of ?b 4294967295 stored_decompress] l d
    by (simp add: with_headerSize_def)
  have w: "wf_header (header_of ?r')"
    by (simp add: wf_header_def header_of_def with_body_def example_header_def)
  have e: "(header_of ?r')\<lparr>compressionType := 0\<rparr> = (example_header 0 0 0)\<lparr>headerSize := 4294967295\<rparr>"
    by (simp add: header_of_def with_body_def example_header_def)
  have 2: "get_uncompressed ?r'
      = Inr (header_bytes ((example_header 0 0 0)\<lparr>headerSize := 4294967295\<rparr>) @ [1, 2, 3])"
    using get_uncompressed_wf [OF w] by (simp add: e)
  have "take 4 (drop 13
        (header_bytes ((example_header 0 0 0)\<lparr>headerSize := 4294967295\<rparr>) @ [1, 2, 3]))
      = le_pack 4 (headerSize ?r')"
    using headerSize_not_validated [of _ _ _ ?r'
        "header_bytes ((example_header 0 0 0)\<lparr>headerSize := 4294967295\<rparr>) @ [1, 2, 3]"] 2
    by blast
  then have 3: "take 4 (drop 13
        (header_bytes ((example_header 0 0 0)\<lparr>headerSize := 4294967295\<rparr>) @ [1, 2, 3]))
      = [255, 255, 255, 255]"
    by (simp add: le_pack_4 with_body_def)
  have hs: "headerSize ?r' = 4294967295" "le_pack 4 4294967295 = [255, 255, 255, 255]"
    by (simp_all add: le_pack_4 with_body_def)
  have p: "length (uncompressedBlob ?r') < 2 ^ 32"
    "stored_compress (uncompressedBlob ?r') = Some [1, 2, 3]"
    "length ([1, 2, 3] :: bytes) < 2 ^ 32"
    by (simp_all add: with_body_def stored_compress_def)
  note T = headerSize_not_validated [where d = stored_decompress and c = stored_compress
      and b = "take 13 ?b @ le_pack 4 4294967295 @ drop 17 ?b" and r = ?r'
      and cb = "[1, 2, 3]"]
  from T 1 p have 4: "\<exists>z. get_compressed stored_compress ?r' = Inr z \<and> take 13 z = MAGIC
      \<and> take 4 (drop 13 z) = le_pack 4 (headerSize ?r')
      \<and> le_unpack (take 4 (drop 13 z)) = headerSize ?r'"
    by blast
  from T 1 have 5: "\<exists>u. get_uncompressed ?r' = Inr u \<and> take 13 u = MAGIC
      \<and> take 4 (drop 13 u) = le_pack 4 (headerSize ?r')
      \<and> le_unpack (take 4 (drop 13 u)) = headerSize ?r'"
    by blast
  from 1 2 3 4 [unfolded hs] 5 [unfolded hs] show ?thesis by blast
qed

text \<open>
  Claim C1, amended. For every input that \<open>ESS.__init__\<close> decodes to a record,
  \<open>get_uncompressed\<close> returns bytes that decode to a record with the tag 0, no declared
  sizes and every other field as in the first record. If moreover the screenshot of the
  record has its full \<open>4 * width * height\<close> bytes, the payload is shorter than \<open>2 ^ 32\<close>
  bytes and the block codec compresses it to fewer than \<open>2 ^ 32\<close> bytes that it
  decompresses back, then \<open>get_compressed\<close> returns bytes that decode to a record with
  the tag 2, the fresh sizes and every other field as in the first record.
\<close>

theorem roundtrip_semantic_fields:
  assumes "ESS_init d b = Inr r"
  shows "(\<exists>u r'. get_uncompressed r = Inr u \<and> ESS_init d u = Inr r' \<and> same_semantic r r'
            \<and> compressionType r' = 0 \<and> uncompressedLen r' = None \<and> compressedLen r' = None)
     \<and> (length (screenshotData r) = 4 * shotWidth r * shotHeight r
          \<and> length (uncompressedBlob r) < 2 ^ 32
          \<and> c (uncompressedBlob r) = Some cb \<and> length cb < 2 ^ 32
          \<and> d cb (length (uncompressedBlob r)) = Some (uncompressedBlob r)
        \<longrightarrow> (\<exists>z r'. get_compressed c r = Inr z \<and> ESS_init d z = Inr r' \<and> same_semantic r r'
              \<and> compressionType r' = 2
              \<and> uncompressedLen r' = Some (length (uncompressedBlob r))
              \<and> compressedLen r' = Some (length cb)))"
proof (intro conjI impI)
  let ?r0 = "with_body ((header_of r)\<lparr>compressionType := 0\<rparr>) (screenshotData r) None None
      (uncompressedBlob r)"
  have "same_semantic r ?r0" by (rule same_semantic_reencoded)
  moreover have "compressionType ?r0 = 0" "uncompressedLen ?r0 = None" "compressedLen ?r0 = None"
    by (simp_all add: with_body_def)
  ultimately show "\<exists>u r'. get_uncompressed r = Inr u \<and> ESS_init d u = Inr r' \<and> same_semantic r r'
            \<and> compressionType r' = 0 \<and> uncompressedLen r' = None \<and> compressedLen r' = None"
    using roundtrip_stored(1) [OF assms] roundtrip_stored(2) [OF assms, where d' = d] by blast
next
  assume a: "length (screenshotData r) = 4 * shotWidth r * shotHeight r
          \<and> length (uncompressedBlob r) < 2 ^ 32
          \<and> c (uncompressedBlob r) = Some cb \<and> length cb < 2 ^ 32
          \<and> d cb (length (uncompressedBlob r)) = Some (uncompressedBlob r)"
  let ?r2 = "with_body ((header_of r)\<lparr>compressionType := 2\<rparr>) (screenshotData r)
      (Some (length (uncompressedBlob r))) (Some (length cb)) (uncompressedBlob r)"
  have "same_semantic r ?r2" by (rule same_semantic_reencoded)
  moreover have "compressionType ?r2 = 2"
    "uncompressedLen ?r2 = Some (length (uncompressedBlob r))"
    "compressedLen ?r2 = Some (length cb)"
    by (simp_all add: with_body_def)
  ultimately show "\<exists>z r'. get_compressed c r = Inr z \<and> ESS_init d z = Inr r' \<and> same_semantic r r'
              \<and> compressionType r' = 2
              \<and> uncompressedLen r' = Some (length (uncompressedBlob r))
              \<and> compressedLen r' = Some (length cb)"
    using roundtrip_compressed(1) [OF assms, where c = c and cb = cb]
      roundtrip_compressed(2) [OF assms, where c = c and cb = cb and d' = d] a
    by blast
qed


theorem roundtrip_semantic_fields_witness:
  "ESS_init stored_decompress (example_header_bytes 1 1 0 @ [9, 9, 9, 9, 1, 2, 3])
     = Inr (with_body (example_header 1 1 0) [9, 9, 9, 9] None None [1, 2, 3])
   \<and> (\<exists>u r'. get_uncompressed (with_body (example_header 1 1 0) [9, 9, 9, 9] None None [1, 2, 3])
           = Inr u
         \<and> ESS_init stored_decompress u = Inr r'
         \<and> same_semantic (with_body (example_header 1 1 0) [9, 9, 9, 9] None None [1, 2, 3]) r'
         \<and> compressionType r' = 0 \<and> uncompressedLen r' = None \<and> compressedLen r' = None)
   \<and> (\<exists>z r'. get_compressed stored_compress
           (with_body (example_header 1 1 0) [9, 9, 9, 9] None None [1, 2, 3]) = Inr z
         \<and> ESS_init stored_decompress z = Inr r'
         \<and> same_semantic (with_body (example_header 1 1 0) [9, 9, 9, 9] None None [1, 2, 3]) r'
         \<and> compressionType r' = 2 \<and> uncompressedLen r' = Some 3 \<and> compressedLen r' = Some 3)"
proof -
  let ?h = "example_header 1 1 0"
  let ?r = "with_body ?h [9, 9, 9, 9] None None [1, 2, 3]"
  have w: "wf_header ?h" using wf_example_header [of 1 1 0] by simp
  have c: "compressionType ?h = 0" by simp
  have "ESS_init stored_decompress (header_bytes ?h @ [9, 9, 9, 9] @ [1, 2, 3]) = Inr ?r"
    by (rule decode_stored_bytes [OF w c]) simp_all
  then have d: "ESS_init stored_decompress (example_header_bytes 1 1 0 @ [9, 9, 9, 9, 1, 2, 3])
      = Inr ?r"
    by (simp add: example_header_bytes_1_1_0)
  have p: "length (screenshotData ?r) = 4 * shotWidth ?r * shotHeight ?r
          \<and> length (uncompressedBlob ?r) < 2 ^ 32
          \<and> stored_compress (uncompressedBlob ?r) = Some [1, 2, 3]
          \<and> length ([1, 2, 3] :: bytes) < 2 ^ 32
          \<and> stored_decompress [1, 2, 3] (length (uncompressedBlob ?r))
              = Some (uncompressedBlob ?r)"
    by (simp add: stored_compress_def stored_decompress_def)
  have l: "length (uncompressedBlob ?r) = 3" "length ([1, 2, 3] :: bytes) = 3" by simp_all
  from roundtrip_semantic_fields [OF d, where c = stored_compress and cb = "[1, 2, 3]"] p
  have A: "(\<exists>u r'. get_uncompressed ?r = Inr u \<and> ESS_init stored_decompress u = Inr r'
            \<and> same_semantic ?r r'
            \<and> compressionType r' = 0 \<and> uncompressedLen r' = None \<and> compressedLen r' = None)"
    and B: "(\<exists>z r'. get_compressed stored_compress ?r = Inr z
            \<and> ESS_init stored_decompress z = Inr r' \<and> same_semantic ?r r'
            \<and> compressionType r' = 2
            \<and> uncompressedLen r' = Some (length (uncompressedBlob ?r))
            \<and> compressedLen r' = Some (length ([1, 2, 3] :: bytes)))"
    by blast+
  from d A B [unfolded l] show ?thesis by blast
qed

lemma decode_accepts_truncated_screenshot_aux:
  "ESS_init d (example_header_bytes 1 1 0 @ [7, 7])
     = Inr (with_body (example_header 1 1 0) [7, 7] None None [])"
proof -
  have w: "wf_header (example_header 1 1 0)" using wf_example_header [of 1 1 0] by simp
  have "ESS_init d (header_bytes (example_header 1 1 0) @ [7, 7] @ [])
      = Inr (with_body (example_header 1 1 0) [7, 7] None None [])"
    by (rule decode_stored_bytes [OF w]) (simp_all add: example_header_def)
  then show ?thesis by (simp add: example_header_bytes_1_1_0)
qed

lemma get_compressed_too_large:
  assumes "wf_header (header_of r)" and "2 ^ 32 \<le> length (uncompressedBlob r)"
  shows "get_compressed c r = Inl StructError"
  using header_chunks_wf [OF assms(1), of 2] assms(2)
  by (simp add: get_compressed_def ebind_def pack_uint32_def)

lemma recompressed_truncated_screenshot:
  assumes "get_compressed c (with_body (example_header 1 1 0) [7, 7] None None []) = Inr z"
    and "ESS_init d z = Inr r'"
  shows "screenshotData r' = [7, 7, 0, 0]"
proof -
  let ?r = "with_body (example_header 1 1 0) [7, 7] None None []"
  let ?h = "(header_of ?r)\<lparr>compressionType := 2\<rparr>"
  from get_compressed_Inr(1) [OF assms(1)] obtain cb where
    z: "z = header_bytes ?h @ [7, 7] @ le_pack 4 0 @ le_pack 4 (length cb) @ cb"
    by (auto simp: with_body_def)
  have "wf_header (header_of ?r)"
    using wf_example_header [of 1 1 0] by (simp add: header_of_with_body)
  then have w: "wf_header ?h" by (simp add: wf_header_tag)
  have h: "read_header z = Inr (?h, [7, 7] @ le_pack 4 0 @ le_pack 4 (length cb) @ cb)"
    unfolding z using w by (rule read_header_bytes)
  from assms(2) obtain s' where
    "read_body d ?h ([7, 7] @ le_pack 4 0 @ le_pack 4 (length cb) @ cb) = Inr (r', s')"
    unfolding ESS_init_header [OF h] by (auto split: sum.splits)
  from read_body_Inr_cases [OF this]
  have "screenshotData r'
      = take (4 * shotWidth ?h * shotHeight ?h) ([7, 7] @ le_pack 4 0 @ le_pack 4 (length cb) @ cb)"
    by (auto simp: with_body_def)
  moreover have "4 * shotWidth ?h * shotHeight ?h = 4"
    by (simp add: header_of_def with_body_def example_header_def)
  ultimately show ?thesis by (simp add: le_pack_4)
qed

text \<open>
  Claim C1 as stated fails on two inputs that decode. The first has the tag 0 and ends
  inside the screenshot (2 bytes of 4): whatever the block codec is, the bytes that
  \<open>get_compressed\<close> returns for its record do not decode to a record with the same
  screenshot, since the decoder now takes the first two bytes of the declared uncompressed
  length for the end of the screenshot. The second has the tag 0 and a payload of 4 GiB:
  \<open>get_compressed\<close> raises \<^verbatim>\<open>struct.error\<close> on its record, since the length of the
  payload does not fit the 32-bit field.
\<close>

theorem roundtrip_compressed_counterexample:
  "(\<forall>d. ESS_init d (example_header_bytes 1 1 0 @ [7, 7])
       = Inr (with_body (example_header 1 1 0) [7, 7] None None []))
   \<and> \<not> (\<exists>c d z r'.
          get_compressed c (with_body (example_header 1 1 0) [7, 7] None None []) = Inr z
          \<and> ESS_init d z = Inr r'
          \<and> same_semantic (with_body (example_header 1 1 0) [7, 7] None None []) r')
   \<and> (\<forall>d. ESS_init d (example_header_bytes 0 0 0 @ huge_payload)
       = Inr (with_body (example_header 0 0 0) [] None None huge_payload))
   \<and> (\<forall>c. get_compressed c (with_body (example_header 0 0 0) [] None None huge_payload)
       = Inl StructError)"
proof -
  let ?r = "with_body (example_header 1 1 0) [7, 7] None None []"
  let ?g = "with_body (example_header 0 0 0) [] None None huge_payload"
  have 1: "\<forall>d. ESS_init d (example_header_bytes 1 1 0 @ [7, 7]) = Inr ?r"
    using decode_accepts_truncated_screenshot_aux by blast
  have 2: "\<not> (\<exists>c d z r'. get_compressed c ?r = Inr z \<and> ESS_init d z = Inr r'
          \<and> same_semantic ?r r')"
  proof
    assume "\<exists>c d z r'. get_compressed c ?r = Inr z \<and> ESS_init d z = Inr r'
          \<and> same_semantic ?r r'"
    then obtain c d z r' where g: "get_compressed c ?r = Inr z" and e: "ESS_init d z = Inr r'"
      and s: "same_semantic ?r r'"
      by blast
    from g e have "screenshotData r' = [7, 7, 0, 0]"
      by (rule recompressed_truncated_screenshot)
    moreover from s have "screenshotData r' = [7, 7]"
      by (simp add: same_semantic_def with_body_def)
    ultimately show False by simp
  qed
  have w: "wf_header (example_header 0 0 0)" using wf_example_header [of 0 0 0] by simp
  have "ESS_init d (header_bytes (example_header 0 0 0) @ [] @ huge_payload) = Inr ?g" for d
    by (rule decode_stored_bytes [OF w]) (simp_all add: example_header_def)
  then have 3: "\<forall>d. ESS_init d (example_header_bytes 0 0 0 @ huge_payload) = Inr ?g"
    by (simp add: example_header_bytes_0_0_0)
  have "get_compressed c ?g = Inl StructError" for c
    by (rule get_compressed_too_large)
      (simp_all add: header_of_with_body w, simp add: with_body_def huge_payload_def)
  then have 4: "\<forall>c. get_compressed c ?g = Inl StructError" by blast
  from 1 2 3 4 show ?thesis by blast
qed

section \<open>Writing the archive\<close>

lemma chunks_from_concat: "0 < sz \<Longrightarrow> concat (chunks_from i arr sz) = drop i arr"
proof (induction i arr sz rule: chunks_from.induct)
  case (1 i arr sz)
  show ?case
  proof (cases "length arr \<le> i")
    case True
    then show ?thesis by (subst chunks_from.simps) simp
  next
    case False
    with 1 have "concat (chunks_from (i + sz) arr sz) = drop (i + sz) arr" by simp
    moreover have "take sz (drop i arr) @ drop (i + sz) arr = drop i arr"
      by (metis add.commute append_take_drop_id drop_drop)
    ultimately show ?thesis
      using False "1.prems" by (subst chunks_from.simps) simp
  qed
qed

lemma chunks_from_nonempty: "c \<in> set (chunks_from i arr sz) \<Longrightarrow> c \<noteq> []"
proof (induction i arr sz rule: chunks_from.induct)
  case (1 i arr sz)
  from "1.prems" have a: "\<not> (sz = 0 \<or> length arr \<le> i)"
    by (subst (asm) chunks_from.simps) (auto split: if_splits)
  with "1.prems" have "c = take sz (drop i arr) \<or> c \<in> set (chunks_from (i + sz) arr sz)"
    by (subst (asm) chunks_from.simps) auto
  then show ?case
  proof
    assume "c = take sz (drop i arr)"
    with a show ?thesis by auto
  next
    assume "c \<in> set (chunks_from (i + sz) arr sz)"
    with a "1.IH" show ?thesis by simp
  qed
qed

lemma append_chunks_nonempty:
  "(\<And>c. c \<in> set cs \<Longrightarrow> c \<noteq> []) \<Longrightarrow> append_chunks compressor n cs = Inr (compressor @ concat cs)"
  by (induction cs arbitrary: compressor n) simp_all

lemma append_blob_eq: "append_blob compressor blob = Inr (compressor @ blob)"
proof -
  have "0 < READ_CHUNK_SIZE" by (simp add: READ_CHUNK_SIZE_def MiB_def)
  then have "concat (chunks blob READ_CHUNK_SIZE) = blob"
    by (simp add: chunks_def chunks_from_concat)
  moreover have "append_chunks compressor 0 (chunks blob READ_CHUNK_SIZE)
      = Inr (compressor @ concat (chunks blob READ_CHUNK_SIZE))"
    by (rule append_chunks_nonempty) (simp add: chunks_def chunks_from_nonempty)
  ultimately show ?thesis by (simp add: append_blob_def)
qed

lemma ebind_Inr_iff: "ebind m k = Inr v \<longleftrightarrow> (\<exists>u. m = Inr u \<and> k u = Inr v)"
  by (cases m) (simp_all add: ebind_def)

lemma ebind_Inr [simp]: "ebind (Inr u) k = k u"
  by (simp add: ebind_def)

lemma ebind_Inl [simp]: "ebind (Inl e) k = Inl e"
  by (simp add: ebind_def)

lemma pack_wstring_Inr_iff:
  "pack_wstring v = Inr x \<longleftrightarrow> length v < 2 ^ 16 \<and> x = le_pack 2 (length v) @ v"
  by (auto simp: pack_wstring_def)

lemma pack_uint32_Inr_iff: "pack_uint32 v = Inr x \<longleftrightarrow> v < 2 ^ 32 \<and> x = le_pack 4 v"
  by (auto simp: pack_uint32_def)

lemma encode_utf8_Inr_iff: "encode_utf8 name = Inr x \<longleftrightarrow> utf8_valid name \<and> x = name"
  by (auto simp: encode_utf8_def)

lemma decode_utf8_Inr_iff: "decode_utf8 data = Inr x \<longleftrightarrow> utf8_valid data \<and> x = data"
  by (auto simp: decode_utf8_def)

lemma pack_ess_file_Inr_iff:
  "pack_ess_file d (name, data) (compressor, total_read) = Inr st' \<longleftrightarrow>
     (\<exists>r u. ESS_init d data = Inr r \<and> get_uncompressed r = Inr u \<and> utf8_valid name
        \<and> length name < 2 ^ 16 \<and> length u < 2 ^ 32 \<and> total_read + length data \<noteq> 0
        \<and> st' = (compressor @ entry_bytes name u, total_read + length data))"
  by (auto simp: pack_ess_file_def ebind_Inr_iff pack_wstring_Inr_iff pack_uint32_Inr_iff
      encode_utf8_Inr_iff append_blob_eq entry_bytes_def)

lemma pack_skse_file_Inr_iff:
  "pack_skse_file (name, data) (compressor, total_read) = Inr st' \<longleftrightarrow>
     (utf8_valid name \<and> length name < 2 ^ 16 \<and> length data < 2 ^ 32
        \<and> total_read + length data \<noteq> 0
        \<and> st' = (compressor @ entry_bytes name data, total_read + length data))"
  by (auto simp: pack_skse_file_def ebind_Inr_iff pack_wstring_Inr_iff pack_uint32_Inr_iff
      encode_utf8_Inr_iff append_blob_eq entry_bytes_def)




section \<open>Reading the archive\<close>

lemma update_file_absent: "\<not> path_exists fs name \<Longrightarrow> update_file fs name g = fs"
  by (induction fs) (auto simp: path_exists_def update_file_def)

lemma update_file_append:
  "update_file (fs @ fs') name g = update_file fs name g @ update_file fs' name g"
  by (simp add: update_file_def)

lemma path_exists_append:
  "path_exists (fs @ fs') name \<longleftrightarrow> path_exists fs name \<or> path_exists fs' name"
  by (auto simp: path_exists_def)

lemma create_file:
  assumes "\<not> path_exists fs name"
  shows "open_wb fs name = fs @ [(name, \<lparr>contents = [], file_times = None\<rparr>)]"
    and "write_file (fs @ [(name, \<lparr>contents = [], file_times = None\<rparr>)]) name data
       = fs @ [(name, \<lparr>contents = data, file_times = None\<rparr>)]"
    and "utime (fs @ [(name, \<lparr>contents = data, file_times = None\<rparr>)]) name t
       = Inr (fs @ [(name, \<lparr>contents = data, file_times = Some t\<rparr>)])"
proof -
  show "open_wb fs name = fs @ [(name, \<lparr>contents = [], file_times = None\<rparr>)]"
    using assms by (simp add: open_wb_def)
  show "write_file (fs @ [(name, \<lparr>contents = [], file_times = None\<rparr>)]) name data
       = fs @ [(name, \<lparr>contents = data, file_times = None\<rparr>)]"
    unfolding write_file_def update_file_append update_file_absent [OF assms]
    by (simp add: update_file_def)
  show "utime (fs @ [(name, \<lparr>contents = data, file_times = None\<rparr>)]) name t
       = Inr (fs @ [(name, \<lparr>contents = data, file_times = Some t\<rparr>)])"
    unfolding utime_def update_file_append update_file_absent [OF assms]
    by (simp add: update_file_def path_exists_def)
qed

lemma restore_ess_entry_exists:
  assumes "read_wstring (stream st) = Inr (name, s1)" and "utf8_valid name"
    and "path_exists (dir st) name"
  shows "restore_ess_entry c d st = (Some DestinationExists, st\<lparr>stream := s1\<rparr>)"
  using assms by (simp add: restore_ess_entry_def decode_utf8_def)

lemma restore_skse_entry_exists:
  assumes "read_wstring (stream st) = Inr (name, s1)" and "utf8_valid name"
    and "path_exists (dir st) name"
  shows "restore_skse_entry st = (Some DestinationExists, st\<lparr>stream := s1\<rparr>)"
  using assms by (simp add: restore_skse_entry_def decode_utf8_def)

lemma restore_ess_entry_cases:
  "(\<exists>e. restore_ess_entry c d st = (Some e, st\<lparr>stream := stream (snd (restore_ess_entry c d st))\<rparr>))
   \<or> (\<exists>name s1 filesize s2 r.
        read_wstring (stream st) = Inr (name, s1) \<and> utf8_valid name
        \<and> \<not> path_exists (dir st) name
        \<and> read_uint32 s1 = Inr (filesize, s2)
        \<and> ESS_init d (take filesize s2) = Inr r
        \<and> (case get_compressed c r of
             Inl e \<Rightarrow>
               restore_ess_entry c d st
                = (Some e, st\<lparr>stream := drop filesize s2,
                     stem_to_posix_timestamp := (stem_to_posix_timestamp st)
                       (path_stem name \<mapsto> get_filetime_as_posix_seconds r),
                     dir := dir st @ [(name, \<lparr>contents = [], file_times = None\<rparr>)]\<rparr>)
           | Inr z \<Rightarrow>
               restore_ess_entry c d st
                = (None, st\<lparr>stream := drop filesize s2,
                     stem_to_posix_timestamp := (stem_to_posix_timestamp st)
                       (path_stem name \<mapsto> get_filetime_as_posix_seconds r),
                     dir := dir st @ [(name, \<lparr>contents = z,
                       file_times = Some (get_filetime_as_posix_seconds r,
                         get_filetime_as_posix_seconds r)\<rparr>)]\<rparr>)))"
proof (cases "read_wstring (stream st)")
  case (Inl e)
  then show ?thesis by (simp add: restore_ess_entry_def)
next
  case (Inr x)
  obtain name s1 where x: "x = (name, s1)" by (cases x)
  note w = Inr [unfolded x]
  show ?thesis
  proof (cases "utf8_valid name \<and> \<not> path_exists (dir st) name")
    case False
    then show ?thesis using w by (auto simp: restore_ess_entry_def decode_utf8_def)
  next
    case True
    show ?thesis
    proof (cases "read_uint32 s1")
      case (Inl e)
      then show ?thesis using w True by (simp add: restore_ess_entry_def decode_utf8_def)
    next
      case (Inr y)
      obtain filesize s2 where y: "y = (filesize, s2)" by (cases y)
      note u = Inr [unfolded y]
      show ?thesis
      proof (cases "ESS_init d (take filesize s2)")
        case (Inl e)
        then show ?thesis using w True u by (simp add: restore_ess_entry_def decode_utf8_def)
      next
        case (Inr r)
        from True have n: "\<not> path_exists (dir st) name" by simp
        have "case get_compressed c r of
             Inl e \<Rightarrow>
               restore_ess_entry c d st
                = (Some e, st\<lparr>stream := drop filesize s2,
                     stem_to_posix_timestamp := (stem_to_posix_timestamp st)
                       (path_stem name \<mapsto> get_filetime_as_posix_seconds r),
                     dir := dir st @ [(name, \<lparr>contents = [], file_times = None\<rparr>)]\<rparr>)
           | Inr z \<Rightarrow>
               restore_ess_entry c d st
                = (None, st\<lparr>stream := drop filesize s2,
                     stem_to_posix_timestamp := (stem_to_posix_timestamp st)
                       (path_stem name \<mapsto> get_filetime_as_posix_seconds r),
                     dir := dir st @ [(name, \<lparr>contents = z,
                       file_times = Some (get_filetime_as_posix_seconds r,
                         get_filetime_as_posix_seconds r)\<rparr>)]\<rparr>)"
          using w True u Inr
          by (simp add: restore_ess_entry_def decode_utf8_def Let_def create_file [OF n]
              split: sum.splits)
        with w True u Inr show ?thesis by blast
      qed
    qed
  qed
qed

lemma restore_skse_entry_cases:
  "(\<exists>e. restore_skse_entry st = (Some e, st\<lparr>stream := stream (snd (restore_skse_entry st))\<rparr>))
   \<or> (\<exists>name s1 filesize s2.
        read_wstring (stream st) = Inr (name, s1) \<and> utf8_valid name
        \<and> \<not> path_exists (dir st) name
        \<and> read_uint32 s1 = Inr (filesize, s2)
        \<and> (case stem_to_posix_timestamp st (path_stem name) of
             None \<Rightarrow>
               restore_skse_entry st
                = (Some KeyError, st\<lparr>stream := drop filesize s2,
                     dir := dir st @ [(name, \<lparr>contents = take filesize s2,
                       file_times = None\<rparr>)]\<rparr>)
           | Some ts \<Rightarrow>
               restore_skse_entry st
                = (None, st\<lparr>stream := drop filesize s2,
                     dir := dir st @ [(name, \<lparr>contents = take filesize s2,
                       file_times = Some (ts, ts)\<rparr>)]\<rparr>)))"
proof (cases "read_wstring (stream st)")
  case (Inl e)
  then show ?thesis by (simp add: restore_skse_entry_def)
next
  case (Inr x)
  obtain name s1 where x: "x = (name, s1)" by (cases x)
  note w = Inr [unfolded x]
  show ?thesis
  proof (cases "utf8_valid name \<and> \<not> path_exists (dir st) name")
    case False
    then show ?thesis using w by (auto simp: restore_skse_entry_def decode_utf8_def)
  next
    case True
    show ?thesis
    proof (cases "read_uint32 s1")
      case (Inl e)
      then show ?thesis using w True by (simp add: restore_skse_entry_def decode_utf8_def)
    next
      case (Inr y)
      obtain filesize s2 where y: "y = (filesize, s2)" by (cases y)
      note u = Inr [unfolded y]
      from True have n: "\<not> path_exists (dir st) name" by simp
      have "case stem_to_posix_timestamp st (path_stem name) of
             None \<Rightarrow>
               restore_skse_entry st
                = (Some KeyError, st\<lparr>stream := drop filesize s2,
                     dir := dir st @ [(name, \<lparr>contents = take filesize s2,
                       file_times = None\<rparr>)]\<rparr>)
           | Some ts \<Rightarrow>
               restore_skse_entry st
                = (None, st\<lparr>stream := drop filesize s2,
                     dir := dir st @ [(name, \<lparr>contents = take filesize s2,
                       file_times = Some (ts, ts)\<rparr>)]\<rparr>)"
        using w True u
        by (simp add: restore_skse_entry_def decode_utf8_def Let_def create_file [OF n]
            split: option.splits)
      with w True u show ?thesis by blast
    qed
  qed
qed

lemma restore_ess_entry_extends:
  "\<exists>new. dir (snd (restore_ess_entry c d st)) = dir st @ new"
proof -
  from restore_ess_entry_cases [of c d st] show ?thesis
  proof (elim disjE exE conjE)
    fix e
    assume "restore_ess_entry c d st
        = (Some e, st\<lparr>stream := stream (snd (restore_ess_entry c d st))\<rparr>)"
    then have "dir (snd (restore_ess_entry c d st)) = dir st @ []"
      by (metis append_Nil2 restore_state.select_convs(2) restore_state.surjective
          restore_state.update_convs(1) snd_conv)
    then show ?thesis by blast
  next
    fix name s1 filesize s2 r
    assume "case get_compressed c r of
             Inl e \<Rightarrow>
               restore_ess_entry c d st
                = (Some e, st\<lparr>stream := drop filesize s2,
                     stem_to_posix_timestamp := (stem_to_posix_timestamp st)
                       (path_stem name \<mapsto> get_filetime_as_posix_seconds r),
                     dir := dir st @ [(name, \<lparr>contents = [], file_times = None\<rparr>)]\<rparr>)
           | Inr z \<Rightarrow>
               restore_ess_entry c d st
                = (None, st\<lparr>stream := drop filesize s2,
                     stem_to_posix_timestamp := (stem_to_posix_timestamp st)
                       (path_stem name \<mapsto> get_filetime_as_posix_seconds r),
                     dir := dir st @ [(name, \<lparr>contents = z,
                       file_times = Some (get_filetime_as_posix_seconds r,
                         get_filetime_as_posix_seconds r)\<rparr>)]\<rparr>)"
    then show ?thesis by (cases "get_compressed c r") auto
  qed
qed

lemma restore_skse_entry_extends:
  "\<exists>new. dir (snd (restore_skse_entry st)) = dir st @ new"
proof -
  from restore_skse_entry_cases [of st] show ?thesis
  proof (elim disjE exE conjE)
    fix e
    assume "restore_skse_entry st
        = (Some e, st\<lparr>stream := stream (snd (restore_skse_entry st))\<rparr>)"
    then have "dir (snd (restore_skse_entry st)) = dir st @ []"
      by (metis append_Nil2 restore_state.select_convs(2) restore_state.surjective
          restore_state.update_convs(1) snd_conv)
    then show ?thesis by blast
  next
    fix name s1 filesize s2
    assume "case stem_to_posix_timestamp st (path_stem name) of
             None \<Rightarrow>
               restore_skse_entry st
                = (Some KeyError, st\<lparr>stream := drop filesize s2,
                     dir := dir st @ [(name, \<lparr>contents = take filesize s2,
                       file_times = None\<rparr>)]\<rparr>)
           | Some ts \<Rightarrow>
               restore_skse_entry st
                = (None, st\<lparr>stream := drop filesize s2,
                     dir := dir st @ [(name, \<lparr>contents = take filesize s2,
                       file_times = Some (ts, ts)\<rparr>)]\<rparr>)"
    then show ?thesis by (cases "stem_to_posix_timestamp st (path_stem name)") auto
  qed
qed

lemma repeat_step_extends:
  assumes "\<And>st. \<exists>new. dir (snd (body st)) = dir st @ new"
  shows "\<exists>new. dir (snd (repeat_step n body st)) = dir st @ new"
proof (induction n arbitrary: st)
  case 0
  show ?case by simp
next
  case (Suc n)
  obtain e st1 where b: "body st = (e, st1)" by (cases "body st")
  from assms [of st] b obtain new1 where n1: "dir st1 = dir st @ new1" by auto
  show ?case
  proof (cases e)
    case None
    from Suc.IH [of st1] obtain new2 where
      "dir (snd (repeat_step n body st1)) = dir st1 @ new2" by blast
    then have "dir (snd (repeat_step (Suc n) body st)) = dir st @ (new1 @ new2)"
      using b None n1 by simp
    then show ?thesis by blast
  next
    case (Some err)
    then have "dir (snd (repeat_step (Suc n) body st)) = dir st @ new1"
      using b n1 by simp
    then show ?thesis by blast
  qed
qed

lemma decompress_files_extends:
  "\<exists>new. snd (decompress_files c d archive out) = out @ new"
proof (cases "read_uint32 archive")
  case (Inl e)
  then show ?thesis by (simp add: decompress_files_def)
next
  case (Inr x)
  obtain n1 s1 where x: "x = (n1, s1)" by (cases x)
  note a = Inr [unfolded x]
  show ?thesis
  proof (cases "read_uint32 s1")
    case (Inl e)
    then show ?thesis using a by (simp add: decompress_files_def)
  next
    case (Inr y)
    obtain n2 s2 where y: "y = (n2, s2)" by (cases y)
    note b = Inr [unfolded y]
    let ?st0 = "\<lparr>stream = s2, dir = out, stem_to_posix_timestamp = Map.empty\<rparr>"
    obtain e st1 where r1: "repeat_step n1 (restore_ess_entry c d) ?st0 = (e, st1)"
      by (cases "repeat_step n1 (restore_ess_entry c d) ?st0")
    from repeat_step_extends [of "restore_ess_entry c d" n1 ?st0,
        OF restore_ess_entry_extends] r1
    obtain new1 where n1: "dir st1 = out @ new1" by auto
    show ?thesis
    proof (cases e)
      case (Some err)
      then have "snd (decompress_files c d archive out) = out @ new1"
        using a b r1 n1 by (simp add: decompress_files_def)
      then show ?thesis by blast
    next
      case None
      obtain e2 st2 where r2: "repeat_step n2 restore_skse_entry st1 = (e2, st2)"
        by (cases "repeat_step n2 restore_skse_entry st1")
      from repeat_step_extends [of restore_skse_entry n2 st1,
          OF restore_skse_entry_extends] r2
      obtain new2 where n2: "dir st2 = dir st1 @ new2" by auto
      have "snd (decompress_files c d archive out) = out @ (new1 @ new2)"
        using a b r1 None r2 n1 n2 by (simp add: decompress_files_def)
      then show ?thesis by blast
    qed
  qed
qed

lemma repeat_step_add:
  "repeat_step k body st = (None, stk) \<Longrightarrow>
   repeat_step (k + m) body st = repeat_step m body stk"
proof (induction k arbitrary: st)
  case 0
  then show ?case by simp
next
  case (Suc k)
  obtain e st1 where b: "body st = (e, st1)" by (cases "body st")
  show ?case
  proof (cases e)
    case None
    with Suc.prems b have "repeat_step k body st1 = (None, stk)" by simp
    from Suc.IH [OF this] show ?thesis using b None by simp
  next
    case (Some err)
    with Suc.prems b show ?thesis by simp
  qed
qed

lemma repeat_step_fails_at:
  assumes "repeat_step k body st = (None, stk)" and "body stk = (Some e, st')"
  shows "repeat_step (k + Suc m) body st = (Some e, st')"
  unfolding repeat_step_add [OF assms(1)] using assms(2) by simp

section \<open>The overwrite guard\<close>

lemma decompress_files_ess_fails:
  assumes "read_uint32 archive = Inr (num_ess_files, a1)"
    and "read_uint32 a1 = Inr (num_skse_files, a2)"
    and "k < num_ess_files"
    and "repeat_step k (restore_ess_entry c d)
           \<lparr>stream = a2, dir = out, stem_to_posix_timestamp = Map.empty\<rparr> = (None, stk)"
    and "restore_ess_entry c d stk = (Some e, st')"
  shows "decompress_files c d archive out = (Some e, dir st')"
proof -
  from assms(3) have n: "num_ess_files = k + Suc (num_ess_files - k - 1)" by simp
  have "repeat_step num_ess_files (restore_ess_entry c d)
           \<lparr>stream = a2, dir = out, stem_to_posix_timestamp = Map.empty\<rparr> = (Some e, st')"
    by (subst n) (rule repeat_step_fails_at [OF assms(4,5)])
  then show ?thesis using assms(1,2) by (simp add: decompress_files_def)
qed

lemma decompress_files_skse_fails:
  assumes "read_uint32 archive = Inr (num_ess_files, a1)"
    and "read_uint32 a1 = Inr (num_skse_files, a2)"
    and "repeat_step num_ess_files (restore_ess_entry c d)
           \<lparr>stream = a2, dir = out, stem_to_posix_timestamp = Map.empty\<rparr> = (None, ste)"
    and "k < num_skse_files"
    and "repeat_step k restore_skse_entry ste = (None, stk)"
    and "restore_skse_entry stk = (Some e, st')"
  shows "decompress_files c d archive out = (Some e, dir st')"
proof -
  from assms(4) have n: "num_skse_files = k + Suc (num_skse_files - k - 1)" by simp
  have "repeat_step num_skse_files restore_skse_entry ste = (Some e, st')"
    by (subst n) (rule repeat_step_fails_at [OF assms(5,6)])
  then show ?thesis using assms(1,2,3) by (simp add: decompress_files_def)
qed

text \<open>
  Claim C7. An entry of either category whose name is in the output directory makes its
  loop body raise \<open>Destination exists.\<close> right after the name is read, with the directory
  as it was. When the entries before it have been restored, \<open>decompress_files\<close> raises
  that exception and leaves the directory as those entries left it. Whatever the archive
  is, \<open>decompress_files\<close> and each loop body leave every file they found, with its contents
  and times, and only add files after them.
\<close>

theorem restore_refuses_existing_destination:
  "(read_wstring (stream st) = Inr (name, s1) \<and> utf8_valid name \<and> path_exists (dir st) name
      \<longrightarrow> restore_ess_entry c d st = (Some DestinationExists, st\<lparr>stream := s1\<rparr>)
        \<and> restore_skse_entry st = (Some DestinationExists, st\<lparr>stream := s1\<rparr>))
   \<and> (read_uint32 archive = Inr (num_ess_files, a1)
      \<and> read_uint32 a1 = Inr (num_skse_files, a2)
      \<and> k < num_ess_files
      \<and> repeat_step k (restore_ess_entry c d)
           \<lparr>stream = a2, dir = out, stem_to_posix_timestamp = Map.empty\<rparr> = (None, stk)
      \<and> read_wstring (stream stk) = Inr (name, s1) \<and> utf8_valid name
      \<and> path_exists (dir stk) name
      \<longrightarrow> decompress_files c d archive out = (Some DestinationExists, dir stk))
   \<and> (read_uint32 archive = Inr (num_ess_files, a1)
      \<and> read_uint32 a1 = Inr (num_skse_files, a2)
      \<and> repeat_step num_ess_files (restore_ess_entry c d)
           \<lparr>stream = a2, dir = out, stem_to_posix_timestamp = Map.empty\<rparr> = (None, ste)
      \<and> k < num_skse_files
      \<and> repeat_step k restore_skse_entry ste = (None, stk)
      \<and> read_wstring (stream stk) = Inr (name, s1) \<and> utf8_valid name
      \<and> path_exists (dir stk) name
      \<longrightarrow> decompress_files c d archive out = (Some DestinationExists, dir stk))
   \<and> (\<exists>new. dir (snd (restore_ess_entry c d st)) = dir st @ new)
   \<and> (\<exists>new. dir (snd (restore_skse_entry st)) = dir st @ new)
   \<and> (\<exists>new. snd (decompress_files c d archive out) = out @ new)"
proof (intro conjI impI)
  assume a: "read_wstring (stream st) = Inr (name, s1) \<and> utf8_valid name
      \<and> path_exists (dir st) name"
  then have a': "read_wstring (stream st) = Inr (name, s1)" "utf8_valid name"
    "path_exists (dir st) name"
    by simp_all
  show "restore_ess_entry c d st = (Some DestinationExists, st\<lparr>stream := s1\<rparr>)"
    using a' by (rule restore_ess_entry_exists)
  show "restore_skse_entry st = (Some DestinationExists, st\<lparr>stream := s1\<rparr>)"
    using a' by (rule restore_skse_entry_exists)
next
  assume a: "read_uint32 archive = Inr (num_ess_files, a1)
      \<and> read_uint32 a1 = Inr (num_skse_files, a2)
      \<and> k < num_ess_files
      \<and> repeat_step k (restore_ess_entry c d)
           \<lparr>stream = a2, dir = out, stem_to_posix_timestamp = Map.empty\<rparr> = (None, stk)
      \<and> read_wstring (stream stk) = Inr (name, s1) \<and> utf8_valid name
      \<and> path_exists (dir stk) name"
  then have a': "read_uint32 archive = Inr (num_ess_files, a1)"
    "read_uint32 a1 = Inr (num_skse_files, a2)" "k < num_ess_files"
    "repeat_step k (restore_ess_entry c d)
       \<lparr>stream = a2, dir = out, stem_to_posix_timestamp = Map.empty\<rparr> = (None, stk)"
    and n: "read_wstring (stream stk) = Inr (name, s1)" "utf8_valid name"
      "path_exists (dir stk) name"
    by simp_all
  have "restore_ess_entry c d stk = (Some DestinationExists, stk\<lparr>stream := s1\<rparr>)"
    using n by (rule restore_ess_entry_exists)
  with a' have "decompress_files c d archive out
      = (Some DestinationExists, dir (stk\<lparr>stream := s1\<rparr>))"
    by (rule decompress_files_ess_fails)
  then show "decompress_files c d archive out = (Some DestinationExists, dir stk)" by simp
next
  assume a: "read_uint32 archive = Inr (num_ess_files, a1)
      \<and> read_uint32 a1 = Inr (num_skse_files, a2)
      \<and> repeat_step num_ess_files (restore_ess_entry c d)
           \<lparr>stream = a2, dir = out, stem_to_posix_timestamp = Map.empty\<rparr> = (None, ste)
      \<and> k < num_skse_files
      \<and> repeat_step k restore_skse_entry ste = (None, stk)
      \<and> read_wstring (stream stk) = Inr (name, s1) \<and> utf8_valid name
      \<and> path_exists (dir stk) name"
  then have a': "read_uint32 archive = Inr (num_ess_files, a1)"
    "read_uint32 a1 = Inr (num_skse_files, a2)"
    "repeat_step num_ess_files (restore_ess_entry c d)
       \<lparr>stream = a2, dir = out, stem_to_posix_timestamp = Map.empty\<rparr> = (None, ste)"
    "k < num_skse_files" "repeat_step k restore_skse_entry ste = (None, stk)"
    and n: "read_wstring (stream stk) = Inr (name, s1)" "utf8_valid name"
      "path_exists (dir stk) name"
    by simp_all
  have "restore_skse_entry stk = (Some DestinationExists, stk\<lparr>stream := s1\<rparr>)"
    using n by (rule restore_skse_entry_exists)
  with a' have "decompress_files c d archive out
      = (Some DestinationExists, dir (stk\<lparr>stream := s1\<rparr>))"
    by (rule decompress_files_skse_fails)
  then show "decompress_files c d archive out = (Some DestinationExists, dir stk)" by simp
next
  show "\<exists>new. dir (snd (restore_ess_entry c d st)) = dir st @ new"
    by (rule restore_ess_entry_extends)
  show "\<exists>new. dir (snd (restore_skse_entry st)) = dir st @ new"
    by (rule restore_skse_entry_extends)
  show "\<exists>new. snd (decompress_files c d archive out) = out @ new"
    by (rule decompress_files_extends)
qed

theorem restore_refuses_existing_destination_witness:
  "restore_ess_entry stored_compress stored_decompress
      \<lparr>stream = [9, 0] @ example_name @ [0, 0, 0, 0], dir = example_dir,
       stem_to_posix_timestamp = Map.empty\<rparr>
     = (Some DestinationExists,
        \<lparr>stream = [0, 0, 0, 0], dir = example_dir, stem_to_posix_timestamp = Map.empty\<rparr>)
   \<and> restore_skse_entry
      \<lparr>stream = [9, 0] @ example_name @ [0, 0, 0, 0], dir = example_dir,
       stem_to_posix_timestamp = Map.empty\<rparr>
     = (Some DestinationExists,
        \<lparr>stream = [0, 0, 0, 0], dir = example_dir, stem_to_posix_timestamp = Map.empty\<rparr>)
   \<and> decompress_files stored_compress stored_decompress
        ([1, 0, 0, 0] @ [0, 0, 0, 0] @ [9, 0] @ example_name @ [0, 0, 0, 0]) example_dir
     = (Some DestinationExists, example_dir)
   \<and> decompress_files stored_compress stored_decompress
        ([0, 0, 0, 0] @ [1, 0, 0, 0] @ [9, 0] @ example_name @ [0, 0, 0, 0]) example_dir
     = (Some DestinationExists, example_dir)"
proof -
  let ?s = "[9, 0] @ example_name @ [0, 0, 0, 0]"
  let ?st = "\<lparr>stream = ?s, dir = example_dir, stem_to_posix_timestamp = Map.empty\<rparr>"
  let ?c = stored_compress and ?d = stored_decompress
  have v: "utf8_valid example_name"
    by (simp add: utf8_valid_def example_name_def)
  have w: "read_wstring (stream ?st) = Inr (example_name, [0, 0, 0, 0])"
    using read_wstring_pack [of example_name "[0, 0, 0, 0]"]
    by (simp add: le_pack_2 example_name_def)
  have p: "path_exists (dir ?st) example_name"
    by (simp add: path_exists_def example_dir_def)
  have u1: "read_uint32 ([1, 0, 0, 0] @ [0, 0, 0, 0] @ ?s) = Inr (1, [0, 0, 0, 0] @ ?s)"
    using read_uint32_pack [of 1 "[0, 0, 0, 0] @ ?s"] by (simp add: le_pack_4)
  have u0: "read_uint32 ([0, 0, 0, 0] @ x) = Inr (0, x)" for x
    using read_uint32_pack [of 0 x] by (simp add: le_pack_4)
  have u1': "read_uint32 ([1, 0, 0, 0] @ ?s) = Inr (1, ?s)"
    using read_uint32_pack [of 1 "?s"] by (simp add: le_pack_4)
  have r0: "repeat_step 0 body ?st = (None, ?st)" for body by simp
  note T = restore_refuses_existing_destination
  from T [where st = ?st and name = example_name and ?s1.0 = "[0, 0, 0, 0]"
      and c = ?c and d = ?d] w v p
  have A: "restore_ess_entry ?c ?d ?st = (Some DestinationExists, ?st\<lparr>stream := [0, 0, 0, 0]\<rparr>)"
    and B: "restore_skse_entry ?st = (Some DestinationExists, ?st\<lparr>stream := [0, 0, 0, 0]\<rparr>)"
    by blast+
  from T [where archive = "[1, 0, 0, 0] @ [0, 0, 0, 0] @ ?s" and num_ess_files = 1
      and ?a1.0 = "[0, 0, 0, 0] @ ?s" and num_skse_files = 0 and ?a2.0 = ?s and k = 0
      and out = example_dir and stk = ?st and name = example_name
      and ?s1.0 = "[0, 0, 0, 0]" and c = ?c and d = ?d]
    u1 u0 [of ?s] r0 w v p
  have C: "decompress_files ?c ?d ([1, 0, 0, 0] @ [0, 0, 0, 0] @ ?s) example_dir
      = (Some DestinationExists, dir ?st)"
    by simp
  from T [where archive = "[0, 0, 0, 0] @ [1, 0, 0, 0] @ ?s" and num_ess_files = 0
      and ?a1.0 = "[1, 0, 0, 0] @ ?s" and num_skse_files = 1 and ?a2.0 = ?s and k = 0
      and out = example_dir and ste = ?st and stk = ?st and name = example_name
      and ?s1.0 = "[0, 0, 0, 0]" and c = ?c and d = ?d]
    u0 [of "[1, 0, 0, 0] @ ?s"] u1' r0 w v p
  have D: "decompress_files ?c ?d ([0, 0, 0, 0] @ [1, 0, 0, 0] @ ?s) example_dir
      = (Some DestinationExists, dir ?st)"
    by simp
  from A B C D show ?thesis by simp
qed

section \<open>A whole archive\<close>

lemma ESS_init_nonempty: "ESS_init d data = Inr r \<Longrightarrow> data \<noteq> []"
  by (auto simp: ESS_init_Inr_iff dest!: read_header_D(2) simp: header_bytes_def MAGIC_def)

lemma for_each_pack_ess_I:
  assumes "list_all2 (\<lambda>(name, data) u. utf8_valid name \<and> length name < 2 ^ 16
             \<and> length u < 2 ^ 32
             \<and> (\<exists>r. ESS_init d data = Inr r \<and> get_uncompressed r = Inr u)) E us"
  shows "\<exists>total_read'. for_each (pack_ess_file d) E (compressor, total_read)
           = Inr (compressor @ concat (map2 entry_bytes (map fst E) us), total_read')
         \<and> (total_read \<noteq> 0 \<or> E \<noteq> [] \<longrightarrow> total_read' \<noteq> 0)"
  using assms
proof (induction E us arbitrary: compressor total_read rule: list_all2_induct)
  case Nil
  show ?case by simp
next
  case (Cons x E u us)
  obtain name data where x: "x = (name, data)" by (cases x)
  from Cons.hyps(1) obtain r where n: "utf8_valid name" "length name < 2 ^ 16"
    "length u < 2 ^ 32" and r: "ESS_init d data = Inr r" "get_uncompressed r = Inr u"
    by (auto simp: x)
  from ESS_init_nonempty [OF r(1)] have ne: "total_read + length data \<noteq> 0" by simp
  have s: "pack_ess_file d (name, data) (compressor, total_read)
      = Inr (compressor @ entry_bytes name u, total_read + length data)"
    unfolding pack_ess_file_Inr_iff using n r ne by blast
  from Cons.IH [of "compressor @ entry_bytes name u" "total_read + length data"] ne
  obtain total_read' where
    "for_each (pack_ess_file d) E (compressor @ entry_bytes name u, total_read + length data)
       = Inr ((compressor @ entry_bytes name u) @ concat (map2 entry_bytes (map fst E) us),
              total_read')"
    and "total_read' \<noteq> 0"
    by blast
  then show ?case by (simp add: x s)
qed

lemma for_each_pack_skse_I:
  assumes "\<forall>(name, data) \<in> set S. utf8_valid name \<and> length name < 2 ^ 16
             \<and> length data < 2 ^ 32"
    and "total_read \<noteq> 0 \<or> S = [] \<or> snd (hd S) \<noteq> []"
  shows "\<exists>total_read'. for_each pack_skse_file S (compressor, total_read)
           = Inr (compressor @ concat (map (\<lambda>(name, data). entry_bytes name data) S),
                  total_read')"
  using assms
proof (induction S arbitrary: compressor total_read)
  case Nil
  show ?case by simp
next
  case (Cons x S)
  obtain name data where x: "x = (name, data)" by (cases x)
  from Cons.prems(1) have n: "utf8_valid name" "length name < 2 ^ 16" "length data < 2 ^ 32"
    by (auto simp: x)
  from Cons.prems(2) have ne: "total_read + length data \<noteq> 0" by (auto simp: x)
  have s: "pack_skse_file (name, data) (compressor, total_read)
      = Inr (compressor @ entry_bytes name data, total_read + length data)"
    unfolding pack_skse_file_Inr_iff using n ne by blast
  from Cons.prems(1) have "\<forall>(name, data) \<in> set S. utf8_valid name \<and> length name < 2 ^ 16
             \<and> length data < 2 ^ 32"
    by simp
  from Cons.IH [OF this, of "total_read + length data" "compressor @ entry_bytes name data"] ne
  obtain total_read' where
    "for_each pack_skse_file S (compressor @ entry_bytes name data, total_read + length data)
       = Inr ((compressor @ entry_bytes name data)
              @ concat (map (\<lambda>(name, data). entry_bytes name data) S), total_read')"
    by blast
  then show ?case by (simp add: x s)
qed

lemma compress_files_I:
  assumes "list_all2 (\<lambda>(name, data) u. utf8_valid name \<and> length name < 2 ^ 16
             \<and> length u < 2 ^ 32
             \<and> (\<exists>r. ESS_init d data = Inr r \<and> get_uncompressed r = Inr u)) E us"
    and "\<forall>(name, data) \<in> set S. utf8_valid name \<and> length name < 2 ^ 16
             \<and> length data < 2 ^ 32"
    and "length E < 2 ^ 32" and "length S < 2 ^ 32"
    and "E \<noteq> [] \<or> S = [] \<or> snd (hd S) \<noteq> []"
  shows "compress_files d E S
       = Inr (le_pack 4 (length E) @ le_pack 4 (length S)
              @ concat (map2 entry_bytes (map fst E) us)
              @ concat (map (\<lambda>(name, data). entry_bytes name data) S))"
proof -
  let ?h = "le_pack 4 (length E) @ le_pack 4 (length S)"
  from for_each_pack_ess_I [OF assms(1), of ?h 0] obtain t1 where
    e: "for_each (pack_ess_file d) E (?h, 0)
         = Inr (?h @ concat (map2 entry_bytes (map fst E) us), t1)"
    and t1: "E \<noteq> [] \<longrightarrow> t1 \<noteq> 0"
    by auto
  from t1 assms(5) have "t1 \<noteq> 0 \<or> S = [] \<or> snd (hd S) \<noteq> []" by blast
  from for_each_pack_skse_I [OF assms(2) this,
      of "?h @ concat (map2 entry_bytes (map fst E) us)"]
  obtain t2 where
    s: "for_each pack_skse_file S (?h @ concat (map2 entry_bytes (map fst E) us), t1)
         = Inr ((?h @ concat (map2 entry_bytes (map fst E) us))
                @ concat (map (\<lambda>(name, data). entry_bytes name data) S), t2)"
    by blast
  show ?thesis
    using assms(3,4) e s by (simp add: compress_files_def pack_uint32_def append_blob_eq)
qed

lemma read_entry_bytes:
  assumes "length name < 2 ^ 16" and "length payload < 2 ^ 32"
  shows "read_wstring (entry_bytes name payload @ rest)
       = Inr (name, le_pack 4 (length payload) @ payload @ rest)"
    and "read_uint32 (le_pack 4 (length payload) @ payload @ rest)
       = Inr (length payload, payload @ rest)"
  using read_wstring_pack [OF assms(1), of "le_pack 4 (length payload) @ payload @ rest"]
    read_uint32_pack [OF assms(2), of "payload @ rest"]
  by (simp_all add: entry_bytes_def)

lemma restore_ess_entry_ok:
  assumes "stream st = entry_bytes name u @ rest"
    and "utf8_valid name" and "length name < 2 ^ 16" and "length u < 2 ^ 32"
    and "\<not> path_exists (dir st) name"
    and "ESS_init d u = Inr r" and "get_compressed c r = Inr z"
  shows "restore_ess_entry c d st
       = (None, st\<lparr>stream := rest,
            stem_to_posix_timestamp := (stem_to_posix_timestamp st)
              (path_stem name \<mapsto> get_filetime_as_posix_seconds r),
            dir := dir st @ [(name, \<lparr>contents = z,
              file_times = Some (get_filetime_as_posix_seconds r,
                get_filetime_as_posix_seconds r)\<rparr>)]\<rparr>)"
  using assms(2,5,6,7) read_entry_bytes [OF assms(3,4), of rest]
  by (simp add: restore_ess_entry_def assms(1) decode_utf8_def Let_def
      create_file [OF assms(5)])

lemma restore_skse_entry_ok:
  assumes "stream st = entry_bytes name data @ rest"
    and "utf8_valid name" and "length name < 2 ^ 16" and "length data < 2 ^ 32"
    and "\<not> path_exists (dir st) name"
    and "stem_to_posix_timestamp st (path_stem name) = Some ts"
  shows "restore_skse_entry st
       = (None, st\<lparr>stream := rest,
            dir := dir st @ [(name, \<lparr>contents = data, file_times = Some (ts, ts)\<rparr>)]\<rparr>)"
  using assms(2,5,6) read_entry_bytes [OF assms(3,4), of rest]
  by (simp add: restore_skse_entry_def assms(1) decode_utf8_def Let_def
      create_file [OF assms(5)])

section \<open>The forms of a save in the archive and on disk\<close>

lemma decode_example_save:
  "ESS_init stored_decompress example_save
     = Inr (with_body (example_header 0 0 2) [] (Some 3) (Some 3) [1, 2, 3])"
proof -
  have w: "wf_header (example_header 0 0 2)" using wf_example_header [of 0 0 2] by simp
  have c: "compressionType (example_header 0 0 2) = 2" by simp
  have l: "le_unpack [3, 0, 0, 0] = 3" by simp
  have "ESS_init stored_decompress
      (header_bytes (example_header 0 0 2) @ [] @ [3, 0, 0, 0] @ [3, 0, 0, 0] @ [1, 2, 3])
     = (case stored_decompress [1, 2, 3] (le_unpack [3, 0, 0, 0]) of
        None \<Rightarrow> Inl LZ4BlockError
      | Some blob \<Rightarrow>
          if length blob \<noteq> le_unpack [3, 0, 0, 0] then Inl WrongUncompressedSize
          else Inr (with_body (example_header 0 0 2) [] (Some (le_unpack [3, 0, 0, 0]))
                 (Some (le_unpack [3, 0, 0, 0])) blob))"
    by (rule decode_compressed_bytes [OF w c]) simp_all
  then have "ESS_init stored_decompress
      (header_bytes (example_header 0 0 2) @ [] @ [3, 0, 0, 0] @ [3, 0, 0, 0] @ [1, 2, 3])
     = Inr (with_body (example_header 0 0 2) [] (Some 3) (Some 3) [1, 2, 3])"
    unfolding l by (simp add: stored_decompress_def)
  then show ?thesis by (simp add: example_save_def example_header_bytes_0_0_2)
qed

lemma decode_example_stored:
  "ESS_init d (example_header_bytes 0 0 0 @ [1, 2, 3])
     = Inr (with_body (example_header 0 0 0) [] None None [1, 2, 3])"
proof -
  have w: "wf_header (example_header 0 0 0)" using wf_example_header [of 0 0 0] by simp
  have "ESS_init d (header_bytes (example_header 0 0 0) @ [] @ [1, 2, 3])
     = Inr (with_body (example_header 0 0 0) [] None None [1, 2, 3])"
    by (rule decode_stored_bytes [OF w]) simp_all
  then show ?thesis by (simp add: example_header_bytes_0_0_0)
qed

lemma header_of_example:
  "(header_of (with_body (example_header w h t) shot ul cl blob))\<lparr>compressionType := t'\<rparr>
     = example_header w h t'"
  by (simp add: header_of_def with_body_def example_header_def)

lemma utf8_valid_example_name: "utf8_valid example_name"
  by (simp add: utf8_valid_def example_name_def)

lemma example_entry_bytes:
  "entry_bytes example_name (example_header_bytes 0 0 0 @ [1, 2, 3])
     = [9, 0] @ example_name @ [68, 0, 0, 0] @ example_header_bytes 0 0 0 @ [1, 2, 3]"
  by (simp add: entry_bytes_def le_pack_2 le_pack_4 example_name_def example_header_bytes_def)



section \<open>Packing and unpacking\<close>

lemma get_compressed_same_semantic:
  assumes "same_semantic r r'"
  shows "get_compressed c r = get_compressed c r'"
proof -
  from assms have h: "header_chunks r 2 = header_chunks r' 2"
    by (simp add: header_chunks_def same_semantic_def)
  from assms have s: "screenshotData r = screenshotData r'"
    "uncompressedBlob r = uncompressedBlob r'"
    by (simp_all add: same_semantic_def)
  show ?thesis unfolding get_compressed_def h s ..
qed

lemma restored_payload:
  assumes "ESS_init d data = Inr r" and "get_uncompressed r = Inr u"
  shows "\<exists>r'. ESS_init d' u = Inr r' \<and> get_compressed c r' = get_compressed c r"
proof -
  let ?r' = "with_body ((header_of r)\<lparr>compressionType := 0\<rparr>) (screenshotData r) None None
              (uncompressedBlob r)"
  from roundtrip_stored(1) [OF assms(1)] roundtrip_stored(2) [OF assms(1), where d' = d']
    assms(2)
  have "ESS_init d' u = Inr ?r'" by simp
  moreover have "get_compressed c ?r' = get_compressed c r"
    using same_semantic_reencoded [of r 0 None None]
    by (rule get_compressed_same_semantic [symmetric])
  ultimately show ?thesis by blast
qed

lemma path_exists_snoc:
  "path_exists (fs @ [(n, f)]) name \<longleftrightarrow> path_exists fs name \<or> name = n"
  by (auto simp: path_exists_def)

lemma path_exists_names:
  "map fst fs' = map fst fs @ ns \<Longrightarrow>
   path_exists fs' name \<longleftrightarrow> path_exists fs name \<or> name \<in> set ns"
proof -
  assume "map fst fs' = map fst fs @ ns"
  then have "set (map fst fs') = set (map fst fs) \<union> set ns" by simp
  then have "fst ` set fs' = fst ` set fs \<union> set ns" by simp
  then show ?thesis by (auto simp: path_exists_def)
qed

lemma repeat_restore_ess:
  assumes "list_all2 (\<lambda>(name, u) z. utf8_valid name \<and> length name < 2 ^ 16
             \<and> length u < 2 ^ 32
             \<and> (\<exists>r. ESS_init d u = Inr r \<and> get_compressed c r = Inr z)) P zs"
    and "distinct (map fst P)"
    and "\<forall>name \<in> set (map fst P). \<not> path_exists (dir st) name"
    and "stream st = concat (map (\<lambda>(name, u). entry_bytes name u) P) @ rest"
  shows "\<exists>st'. repeat_step (length P) (restore_ess_entry c d) st = (None, st')
       \<and> stream st' = rest
       \<and> map (apsnd contents) (dir st') = map (apsnd contents) (dir st) @ zip (map fst P) zs
       \<and> map fst (dir st') = map fst (dir st) @ map fst P
       \<and> dom (stem_to_posix_timestamp st')
          = dom (stem_to_posix_timestamp st) \<union> path_stem ` set (map fst P)"
  using assms
proof (induction P zs arbitrary: st rule: list_all2_induct)
  case Nil
  then show ?case by simp
next
  case (Cons x P z zs)
  obtain name u where x: "x = (name, u)" by (cases x)
  from Cons.hyps(1) obtain r where n: "utf8_valid name" "length name < 2 ^ 16"
    "length u < 2 ^ 32" and r: "ESS_init d u = Inr r" "get_compressed c r = Inr z"
    by (auto simp: x)
  let ?rest = "concat (map (\<lambda>(name, u). entry_bytes name u) P) @ rest"
  let ?ts = "get_filetime_as_posix_seconds r"
  let ?st1 = "st\<lparr>stream := ?rest,
            stem_to_posix_timestamp := (stem_to_posix_timestamp st)(path_stem name \<mapsto> ?ts),
            dir := dir st @ [(name, \<lparr>contents = z, file_times = Some (?ts, ?ts)\<rparr>)]\<rparr>"
  from Cons.prems(3) have s: "stream st = entry_bytes name u @ ?rest" by (simp add: x)
  from Cons.prems(2) have e: "\<not> path_exists (dir st) name" by (simp add: x)
  have b: "restore_ess_entry c d st = (None, ?st1)"
    using s n e r by (rule restore_ess_entry_ok)
  from Cons.prems(1) have d1: "distinct (map fst P)" and nn: "name \<notin> set (map fst P)"
    by (simp_all add: x)
  have e1: "\<forall>name' \<in> set (map fst P). \<not> path_exists (dir ?st1) name'"
    using Cons.prems(2) nn by (auto simp: path_exists_snoc x)
  have s1: "stream ?st1 = ?rest" by simp
  from Cons.IH [OF d1 e1 s1] obtain st' where
    i: "repeat_step (length P) (restore_ess_entry c d) ?st1 = (None, st')"
    "stream st' = rest"
    "map (apsnd contents) (dir st') = map (apsnd contents) (dir ?st1) @ zip (map fst P) zs"
    "map fst (dir st') = map fst (dir ?st1) @ map fst P"
    "dom (stem_to_posix_timestamp st')
       = dom (stem_to_posix_timestamp ?st1) \<union> path_stem ` set (map fst P)"
    by blast
  have "repeat_step (length (x # P)) (restore_ess_entry c d) st = (None, st')"
    using b i(1) by simp
  moreover have "map (apsnd contents) (dir st')
      = map (apsnd contents) (dir st) @ zip (map fst (x # P)) (z # zs)"
    using i(3) by (simp add: x)
  moreover have "map fst (dir st') = map fst (dir st) @ map fst (x # P)"
    using i(4) by (simp add: x)
  moreover have "dom (stem_to_posix_timestamp st')
      = dom (stem_to_posix_timestamp st) \<union> path_stem ` set (map fst (x # P))"
    using i(5) by (auto simp: x)
  ultimately show ?case using i(2) by blast
qed

lemma repeat_restore_skse:
  assumes "\<forall>(name, data) \<in> set S. utf8_valid name \<and> length name < 2 ^ 16
             \<and> length data < 2 ^ 32
             \<and> path_stem name \<in> dom (stem_to_posix_timestamp st)
             \<and> \<not> path_exists (dir st) name"
    and "distinct (map fst S)"
    and "stream st = concat (map (\<lambda>(name, data). entry_bytes name data) S) @ rest"
  shows "\<exists>st'. repeat_step (length S) restore_skse_entry st = (None, st')
       \<and> stream st' = rest
       \<and> map (apsnd contents) (dir st') = map (apsnd contents) (dir st) @ S"
  using assms
proof (induction S arbitrary: st)
  case Nil
  then show ?case by simp
next
  case (Cons x S)
  obtain name data where x: "x = (name, data)" by (cases x)
  from Cons.prems(1) obtain ts where n: "utf8_valid name" "length name < 2 ^ 16"
    "length data < 2 ^ 32" and e: "\<not> path_exists (dir st) name"
    and t: "stem_to_posix_timestamp st (path_stem name) = Some ts"
    by (auto simp: x)
  let ?rest = "concat (map (\<lambda>(name, data). entry_bytes name data) S) @ rest"
  let ?st1 = "st\<lparr>stream := ?rest,
            dir := dir st @ [(name, \<lparr>contents = data, file_times = Some (ts, ts)\<rparr>)]\<rparr>"
  from Cons.prems(3) have s: "stream st = entry_bytes name data @ ?rest" by (simp add: x)
  have b: "restore_skse_entry st = (None, ?st1)"
    using s n e t by (rule restore_skse_entry_ok)
  from Cons.prems(2) have d1: "distinct (map fst S)" and nn: "name \<notin> set (map fst S)"
    by (simp_all add: x)
  have a1: "\<forall>(name, data) \<in> set S. utf8_valid name \<and> length name < 2 ^ 16
             \<and> length data < 2 ^ 32
             \<and> path_stem name \<in> dom (stem_to_posix_timestamp ?st1)
             \<and> \<not> path_exists (dir ?st1) name"
  proof -
    from nn have "(name, b) \<notin> set S" for b by force
    with Cons.prems(1) show ?thesis by (auto simp: path_exists_snoc x)
  qed
  have s1: "stream ?st1 = ?rest" by simp
  from Cons.IH [OF a1 d1 s1] obtain st' where
    i: "repeat_step (length S) restore_skse_entry ?st1 = (None, st')"
    "stream st' = rest"
    "map (apsnd contents) (dir st') = map (apsnd contents) (dir ?st1) @ S"
    by blast
  have "repeat_step (length (x # S)) restore_skse_entry st = (None, st')"
    using b i(1) by simp
  moreover have "map (apsnd contents) (dir st') = map (apsnd contents) (dir st) @ x # S"
    using i(3) by (simp add: x)
  ultimately show ?case using i(2) by blast
qed

section \<open>A whole archive, packed and unpacked\<close>

lemma restore_ess_entry_compress_fails:
  assumes "stream st = entry_bytes name u @ rest"
    and "utf8_valid name" and "length name < 2 ^ 16" and "length u < 2 ^ 32"
    and "\<not> path_exists (dir st) name"
    and "ESS_init d u = Inr r" and "get_compressed c r = Inl e"
  shows "restore_ess_entry c d st
       = (Some e, st\<lparr>stream := rest,
            stem_to_posix_timestamp := (stem_to_posix_timestamp st)
              (path_stem name \<mapsto> get_filetime_as_posix_seconds r),
            dir := dir st @ [(name, \<lparr>contents = [], file_times = None\<rparr>)]\<rparr>)"
  using assms(2,5,6,7) read_entry_bytes [OF assms(3,4), of rest]
  by (simp add: restore_ess_entry_def assms(1) decode_utf8_def Let_def
      create_file [OF assms(5)])

lemma decompress_single_ess:
  assumes "utf8_valid name" and "length name < 2 ^ 16" and "length u < 2 ^ 32"
    and "\<not> path_exists out name" and "ESS_init d u = Inr r"
  shows "decompress_files c d (le_pack 4 1 @ le_pack 4 0 @ entry_bytes name u) out
       = (case get_compressed c r of
            Inl e \<Rightarrow> (Some e, out @ [(name, \<lparr>contents = [], file_times = None\<rparr>)])
          | Inr z \<Rightarrow>
              (None, out @ [(name, \<lparr>contents = z,
                 file_times = Some (get_filetime_as_posix_seconds r,
                   get_filetime_as_posix_seconds r)\<rparr>)]))"
proof -
  let ?st = "\<lparr>stream = entry_bytes name u, dir = out, stem_to_posix_timestamp = Map.empty\<rparr>"
  have r1: "read_uint32 (le_pack 4 1 @ le_pack 4 0 @ entry_bytes name u)
      = Inr (1, le_pack 4 0 @ entry_bytes name u)"
    by (rule read_uint32_pack) simp
  have r2: "read_uint32 (le_pack 4 0 @ entry_bytes name u) = Inr (0, entry_bytes name u)"
    by (rule read_uint32_pack) simp
  have s: "stream ?st = entry_bytes name u @ []" by simp
  have e: "\<not> path_exists (dir ?st) name" using assms(4) by simp
  show ?thesis
  proof (cases "get_compressed c r")
    case (Inl err)
    from restore_ess_entry_compress_fails [OF s assms(1,2,3) e assms(5) Inl]
    show ?thesis unfolding decompress_files_def r1 by (simp add: r2 Inl)
  next
    case (Inr z)
    from restore_ess_entry_ok [OF s assms(1,2,3) e assms(5) Inr]
    show ?thesis unfolding decompress_files_def r1 by (simp add: r2 Inr)
  qed
qed

lemma utf8_valid_example_sidecar_name: "utf8_valid example_sidecar_name"
  by (simp add: utf8_valid_def example_sidecar_name_def)

lemma path_stem_example:
  "path_stem example_name = [83, 97, 118, 101, 49]"
  "path_stem example_sidecar_name = [83, 97, 118, 101, 49]"
  by (simp_all add: path_stem_def rfind_dot_def example_name_def example_sidecar_name_def)

lemma example_names_fresh:
  "\<not> path_exists [] example_name" "\<not> path_exists [] example_sidecar_name"
  "example_name \<noteq> example_sidecar_name"
  "length example_name < 2 ^ 16" "length example_sidecar_name < 2 ^ 16"
  by (simp_all add: path_exists_def example_name_def example_sidecar_name_def)

lemma encode_example_save:
  "get_uncompressed (with_body (example_header 0 0 2) [] (Some 3) (Some 3) [1, 2, 3])
     = Inr (example_header_bytes 0 0 0 @ [1, 2, 3])"
  "get_compressed stored_compress
       (with_body (example_header 0 0 2) [] (Some 3) (Some 3) [1, 2, 3])
     = Inr example_save"
proof -
  let ?r = "with_body (example_header 0 0 2) [] (Some 3) (Some 3) [1, 2, 3]"
  have w: "wf_header (header_of ?r)"
    using ESS_init_Inr_D(1) [OF decode_example_save] .
  have p: "le_pack 4 3 = [3, 0, 0, 0]" by (simp add: le_pack_4)
  have l3: "length (uncompressedBlob ?r) = 3" "length ([1, 2, 3] :: bytes) = 3"
    by simp_all
  show "get_uncompressed ?r = Inr (example_header_bytes 0 0 0 @ [1, 2, 3])"
    unfolding get_uncompressed_wf [OF w]
    by (simp add: header_of_example example_header_bytes_0_0_0)
  have "get_compressed stored_compress ?r
      = Inr (header_bytes ((header_of ?r)\<lparr>compressionType := 2\<rparr>) @ screenshotData ?r
           @ le_pack 4 (length (uncompressedBlob ?r))
           @ le_pack 4 (length ([1, 2, 3] :: bytes)) @ [1, 2, 3])"
    by (rule get_compressed_wf [OF w]) (simp_all add: stored_compress_def)
  then show "get_compressed stored_compress ?r = Inr example_save"
    unfolding l3 p
    by (simp add: header_of_example example_header_bytes_0_0_2 example_save_def)
qed

lemma example_sidecar_entry_bytes:
  "entry_bytes example_sidecar_name [4, 5]
     = [10, 0] @ example_sidecar_name @ [2, 0, 0, 0] @ [4, 5]"
  by (simp add: entry_bytes_def le_pack_2 le_pack_4 example_sidecar_name_def)

lemma example_archive_bytes:
  "le_pack 4 1 @ le_pack 4 0 @ entry_bytes example_name (example_header_bytes 0 0 0 @ [1, 2, 3])
     = [1, 0, 0, 0] @ [0, 0, 0, 0] @ [9, 0] @ example_name @ [68, 0, 0, 0]
       @ example_header_bytes 0 0 0 @ [1, 2, 3]"
  "le_pack 4 1 @ le_pack 4 1
     @ entry_bytes example_name (example_header_bytes 0 0 0 @ [1, 2, 3])
     @ entry_bytes example_sidecar_name [4, 5]
     = [1, 0, 0, 0] @ [1, 0, 0, 0] @ [9, 0] @ example_name @ [68, 0, 0, 0]
       @ example_header_bytes 0 0 0 @ [1, 2, 3]
       @ [10, 0] @ example_sidecar_name @ [2, 0, 0, 0] @ [4, 5]"
  "le_pack 4 0 @ le_pack 4 0 = [0, 0, 0, 0, 0, 0, 0, 0]"
  by (simp_all add: example_entry_bytes example_sidecar_entry_bytes le_pack_4)


text \<open>
  Claim C2, amended. Take source files whose names are well-formed UTF-8 of fewer than
  \<open>2 ^ 16\<close> bytes, all different and none of them in the output directory; ESS files,
  fewer than \<open>2 ^ 32\<close>, that \<open>ESS.__init__\<close> decodes to the records \<open>rs\<close>, which
  \<open>get_uncompressed\<close> encodes to \<open>us\<close>, each shorter than \<open>2 ^ 32\<close> bytes, and
  \<open>get_compressed\<close> to \<open>zs\<close>; and sidecar files, fewer than \<open>2 ^ 32\<close> and each shorter
  than \<open>2 ^ 32\<close> bytes, with the stem of an ESS file. Then \<open>compress_files\<close> writes the two
  counts, an entry for every ESS file in order and an entry for every sidecar file in
  order, each entry being the length of the name on 16 bits, the name, the length of the
  payload on 32 bits and the payload, which is \<open>us\<close> for the ESS files; and
  \<open>decompress_files\<close> on these bytes adds to the output directory, in this order, a file
  for every ESS file with the name of the source and the contents \<open>zs\<close>, and a file for
  every sidecar file with the name and the contents of the source.
\<close>

theorem archive_round_trip:
  assumes "list_all2 (\<lambda>(name, data) r. ESS_init d data = Inr r) ess_files rs"
    and "list_all2 (\<lambda>r u. get_uncompressed r = Inr u \<and> length u < 2 ^ 32) rs us"
    and "list_all2 (\<lambda>r z. get_compressed c r = Inr z) rs zs"
    and "\<forall>name \<in> set (map fst ess_files @ map fst skse_files).
           utf8_valid name \<and> length name < 2 ^ 16 \<and> \<not> path_exists out name"
    and "distinct (map fst ess_files @ map fst skse_files)"
    and "\<forall>(name, data) \<in> set skse_files.
           length data < 2 ^ 32 \<and> path_stem name \<in> path_stem ` set (map fst ess_files)"
    and "length ess_files < 2 ^ 32" and "length skse_files < 2 ^ 32"
  shows "\<exists>out'.
           compress_files d ess_files skse_files
             = Inr (le_pack 4 (length ess_files) @ le_pack 4 (length skse_files)
                    @ concat (map2 entry_bytes (map fst ess_files) us)
                    @ concat (map (\<lambda>(name, data). entry_bytes name data) skse_files))
         \<and> decompress_files c d
               (le_pack 4 (length ess_files) @ le_pack 4 (length skse_files)
                @ concat (map2 entry_bytes (map fst ess_files) us)
                @ concat (map (\<lambda>(name, data). entry_bytes name data) skse_files)) out
             = (None, out')
         \<and> map (apsnd contents) out'
             = map (apsnd contents) out @ zip (map fst ess_files) zs @ skse_files"
proof -
  let ?E = ess_files and ?S = skse_files
  let ?X = "concat (map2 entry_bytes (map fst ?E) us)"
  let ?Y = "concat (map (\<lambda>(name, data). entry_bytes name data) ?S)"
  let ?A = "le_pack 4 (length ?E) @ le_pack 4 (length ?S) @ ?X @ ?Y"
  let ?P = "zip (map fst ?E) us"
  have len: "length rs = length ?E" "length us = length ?E" "length zs = length ?E"
    using list_all2_lengthD [OF assms(1)] list_all2_lengthD [OF assms(2)]
      list_all2_lengthD [OF assms(3)]
    by simp_all
  have nm: "utf8_valid (fst (?E ! i)) \<and> length (fst (?E ! i)) < 2 ^ 16"
    if "i < length ?E" for i
    using assms(4) nth_mem [OF that] by auto
  have dec: "ESS_init d (snd (?E ! i)) = Inr (rs ! i)" if "i < length ?E" for i
    using list_all2_nthD [OF assms(1) that] by (cases "?E ! i") simp
  have unc: "get_uncompressed (rs ! i) = Inr (us ! i) \<and> length (us ! i) < 2 ^ 32"
    if "i < length ?E" for i
    using list_all2_nthD [OF assms(2), of i] that len by simp
  have com: "get_compressed c (rs ! i) = Inr (zs ! i)" if "i < length ?E" for i
    using list_all2_nthD [OF assms(3), of i] that len by simp
  have W: "list_all2 (\<lambda>(name, data) u. utf8_valid name \<and> length name < 2 ^ 16
             \<and> length u < 2 ^ 32
             \<and> (\<exists>r. ESS_init d data = Inr r \<and> get_uncompressed r = Inr u)) ?E us"
  proof (rule list_all2_all_nthI)
    show "length ?E = length us" using len by simp
  next
    fix i assume i: "i < length ?E"
    from nm [OF i] dec [OF i] unc [OF i]
    show "(case ?E ! i of (name, data) \<Rightarrow> \<lambda>u. utf8_valid name \<and> length name < 2 ^ 16
             \<and> length u < 2 ^ 32
             \<and> (\<exists>r. ESS_init d data = Inr r \<and> get_uncompressed r = Inr u)) (us ! i)"
      by (cases "?E ! i") auto
  qed
  have S': "\<forall>(name, data) \<in> set ?S. utf8_valid name \<and> length name < 2 ^ 16
             \<and> length data < 2 ^ 32"
    using assms(4,6) by force
  have nz: "?E \<noteq> [] \<or> ?S = [] \<or> snd (hd ?S) \<noteq> []"
  proof (cases "?S = []")
    case False
    then have "hd ?S \<in> set ?S" by simp
    with assms(6) have "path_stem (fst (hd ?S)) \<in> path_stem ` set (map fst ?E)"
      by (cases "hd ?S") auto
    then have "?E \<noteq> []" by auto
    then show ?thesis by simp
  qed simp
  have A: "compress_files d ?E ?S = Inr ?A"
    using W S' assms(7,8) nz by (rule compress_files_I)
  have Q: "list_all2 (\<lambda>(name, u) z. utf8_valid name \<and> length name < 2 ^ 16
             \<and> length u < 2 ^ 32
             \<and> (\<exists>r. ESS_init d u = Inr r \<and> get_compressed c r = Inr z)) ?P zs"
  proof (rule list_all2_all_nthI)
    show "length ?P = length zs" using len by simp
  next
    fix i assume "i < length ?P"
    then have i: "i < length ?E" using len by simp
    have p: "?P ! i = (fst (?E ! i), us ! i)" using i len by simp
    from restored_payload [OF dec [OF i], of "us ! i" d c] unc [OF i] com [OF i]
    have "\<exists>r. ESS_init d (us ! i) = Inr r \<and> get_compressed c r = Inr (zs ! i)" by auto
    with nm [OF i] unc [OF i]
    show "(case ?P ! i of (name, u) \<Rightarrow> \<lambda>z. utf8_valid name \<and> length name < 2 ^ 16
             \<and> length u < 2 ^ 32
             \<and> (\<exists>r. ESS_init d u = Inr r \<and> get_compressed c r = Inr z)) (zs ! i)"
      unfolding p by simp
  qed
  have fP: "map fst ?P = map fst ?E" using len by simp
  let ?st0 = "\<lparr>stream = ?X @ ?Y, dir = out, stem_to_posix_timestamp = Map.empty\<rparr>"
  have d0: "distinct (map fst ?P)" unfolding fP using assms(5) by simp
  have e0: "\<forall>name \<in> set (map fst ?P). \<not> path_exists (dir ?st0) name"
    unfolding fP using assms(4) by simp
  have s0: "stream ?st0 = concat (map (\<lambda>(name, u). entry_bytes name u) ?P) @ ?Y" by simp
  from repeat_restore_ess [OF Q d0 e0 s0] obtain st1 where
    l1: "repeat_step (length ?P) (restore_ess_entry c d) ?st0 = (None, st1)"
    and s1: "stream st1 = ?Y"
    and c1: "map (apsnd contents) (dir st1)
        = map (apsnd contents) (dir ?st0) @ zip (map fst ?P) zs"
    and n1: "map fst (dir st1) = map fst (dir ?st0) @ map fst ?P"
    and t1: "dom (stem_to_posix_timestamp st1)
        = dom (stem_to_posix_timestamp ?st0) \<union> path_stem ` set (map fst ?P)"
    by blast
  have lP: "length ?P = length ?E" using len by simp
  have n1': "map fst (dir st1) = map fst out @ map fst ?E" using n1 unfolding fP by simp
  have a1: "\<forall>(name, data) \<in> set ?S. utf8_valid name \<and> length name < 2 ^ 16
             \<and> length data < 2 ^ 32
             \<and> path_stem name \<in> dom (stem_to_posix_timestamp st1)
             \<and> \<not> path_exists (dir st1) name"
  proof (clarify, intro conjI)
    fix name data assume m: "(name, data) \<in> set ?S"
    then have f: "name \<in> set (map fst ?S)" by force
    from m S' show "utf8_valid name" "length name < 2 ^ 16" "length data < 2 ^ 32" by auto
    from m assms(6) show "path_stem name \<in> dom (stem_to_posix_timestamp st1)"
      unfolding t1 fP by auto
    from f assms(5) have "name \<notin> set (map fst ?E)" by auto
    moreover from f assms(4) have "\<not> path_exists out name" by simp
    ultimately show "\<not> path_exists (dir st1) name"
      unfolding path_exists_names [OF n1'] by simp
  qed
  have d1: "distinct (map fst ?S)" using assms(5) by simp
  have s1': "stream st1 = ?Y @ []" using s1 by simp
  from repeat_restore_skse [OF a1 d1 s1'] obtain st2 where
    l2: "repeat_step (length ?S) restore_skse_entry st1 = (None, st2)"
    and c2: "map (apsnd contents) (dir st2) = map (apsnd contents) (dir st1) @ ?S"
    by blast
  have r1: "read_uint32 ?A = Inr (length ?E, le_pack 4 (length ?S) @ ?X @ ?Y)"
    using assms(7) by (rule read_uint32_pack)
  have r2: "read_uint32 (le_pack 4 (length ?S) @ ?X @ ?Y) = Inr (length ?S, ?X @ ?Y)"
    using assms(8) by (rule read_uint32_pack)
  have B: "decompress_files c d ?A out = (None, dir st2)"
    using l1 [unfolded lP] l2 by (simp add: decompress_files_def r1 r2)
  have C: "map (apsnd contents) (dir st2)
      = map (apsnd contents) out @ zip (map fst ?E) zs @ ?S"
    using c1 c2 unfolding fP by simp
  from A B C show ?thesis by blast
qed


theorem archive_round_trip_witness:
  "(\<exists>out'.
      compress_files stored_decompress [(example_name, example_save)]
          [(example_sidecar_name, [4, 5])]
        = Inr ([1, 0, 0, 0] @ [1, 0, 0, 0] @ [9, 0] @ example_name @ [68, 0, 0, 0]
               @ example_header_bytes 0 0 0 @ [1, 2, 3]
               @ [10, 0] @ example_sidecar_name @ [2, 0, 0, 0] @ [4, 5])
    \<and> decompress_files stored_compress stored_decompress
          ([1, 0, 0, 0] @ [1, 0, 0, 0] @ [9, 0] @ example_name @ [68, 0, 0, 0]
           @ example_header_bytes 0 0 0 @ [1, 2, 3]
           @ [10, 0] @ example_sidecar_name @ [2, 0, 0, 0] @ [4, 5]) []
        = (None, out')
    \<and> map (apsnd contents) out'
        = [(example_name, example_save), (example_sidecar_name, [4, 5])])
   \<and> (\<exists>out'.
      compress_files stored_decompress [] [] = Inr [0, 0, 0, 0, 0, 0, 0, 0]
    \<and> decompress_files stored_compress stored_decompress [0, 0, 0, 0, 0, 0, 0, 0] example_dir
        = (None, out')
    \<and> map (apsnd contents) out' = [(example_name, [1, 2, 3])])"
proof -
  let ?r = "with_body (example_header 0 0 2) [] (Some 3) (Some 3) [1, 2, 3]"
  let ?u = "example_header_bytes 0 0 0 @ [1, 2, 3]"
  let ?E = "[(example_name, example_save)]"
  let ?S = "[(example_sidecar_name, [4, 5])] :: (filename \<times> bytes) list"
  have h1: "list_all2 (\<lambda>(name, data) r. ESS_init stored_decompress data = Inr r) ?E [?r]"
    by (simp add: decode_example_save)
  have h2: "list_all2 (\<lambda>r u. get_uncompressed r = Inr u \<and> length u < 2 ^ 32) [?r] [?u]"
    by (simp add: encode_example_save(1)) (simp add: example_header_bytes_def)
  have h3: "list_all2 (\<lambda>r z. get_compressed stored_compress r = Inr z) [?r] [example_save]"
    by (simp add: encode_example_save(2))
  have h4: "\<forall>name \<in> set (map fst ?E @ map fst ?S).
           utf8_valid name \<and> length name < 2 ^ 16 \<and> \<not> path_exists [] name"
    using utf8_valid_example_name utf8_valid_example_sidecar_name example_names_fresh
    by simp
  have h5: "distinct (map fst ?E @ map fst ?S)"
    using example_names_fresh(3) by simp
  have h6: "\<forall>(name, data) \<in> set ?S.
           length data < 2 ^ 32 \<and> path_stem name \<in> path_stem ` set (map fst ?E)"
    by (simp add: path_stem_example)
  have h7: "length ?E < 2 ^ 32" "length ?S < 2 ^ 32" by simp_all
  from archive_round_trip [OF h1 h2 h3 h4 h5 h6 h7]
  have A: "\<exists>out'.
      compress_files stored_decompress ?E ?S
        = Inr ([1, 0, 0, 0] @ [1, 0, 0, 0] @ [9, 0] @ example_name @ [68, 0, 0, 0]
               @ example_header_bytes 0 0 0 @ [1, 2, 3]
               @ [10, 0] @ example_sidecar_name @ [2, 0, 0, 0] @ [4, 5])
    \<and> decompress_files stored_compress stored_decompress
          ([1, 0, 0, 0] @ [1, 0, 0, 0] @ [9, 0] @ example_name @ [68, 0, 0, 0]
           @ example_header_bytes 0 0 0 @ [1, 2, 3]
           @ [10, 0] @ example_sidecar_name @ [2, 0, 0, 0] @ [4, 5]) []
        = (None, out')
    \<and> map (apsnd contents) out'
        = [(example_name, example_save), (example_sidecar_name, [4, 5])]"
    using example_archive_bytes(2) by simp
  have e1: "list_all2 (\<lambda>(name, data) r. ESS_init stored_decompress data = Inr r) [] []"
    and e2: "list_all2 (\<lambda>r u. get_uncompressed r = Inr u \<and> length u < 2 ^ 32) [] []"
    and e3: "list_all2 (\<lambda>r z. get_compressed stored_compress r = Inr z) [] []"
    and e4: "\<forall>name \<in> set (map fst ([] :: (filename \<times> bytes) list)
                 @ map fst ([] :: (filename \<times> bytes) list)).
           utf8_valid name \<and> length name < 2 ^ 16 \<and> \<not> path_exists example_dir name"
    and e5: "distinct (map fst ([] :: (filename \<times> bytes) list)
                 @ map fst ([] :: (filename \<times> bytes) list))"
    and e6: "\<forall>(name, data) \<in> set ([] :: (filename \<times> bytes) list).
           length data < 2 ^ 32
           \<and> path_stem name \<in> path_stem ` set (map fst ([] :: (filename \<times> bytes) list))"
    and e7: "length ([] :: (filename \<times> bytes) list) < 2 ^ 32"
    by simp_all
  from archive_round_trip [OF e1 e2 e3 e4 e5 e6 e7 e7]
  have B: "\<exists>out'.
      compress_files stored_decompress [] [] = Inr [0, 0, 0, 0, 0, 0, 0, 0]
    \<and> decompress_files stored_compress stored_decompress [0, 0, 0, 0, 0, 0, 0, 0] example_dir
        = (None, out')
    \<and> map (apsnd contents) out' = [(example_name, [1, 2, 3])]"
    using example_archive_bytes(3) by (simp add: example_dir_def)
  from A B show ?thesis by blast
qed

text \<open>
  The claim as the specification words it fails on one ESS file that is stored
  uncompressed: the file that \<open>decompress_files\<close> creates from the archive starts with the
  header that carries the tag 2, whatever the block codec is, and so differs from the
  source, which carries the tag 0.
\<close>

theorem archive_round_trip_counterexample:
  "compress_files stored_decompress
       [(example_name, example_header_bytes 0 0 0 @ [1, 2, 3])] []
     = Inr ([1, 0, 0, 0] @ [0, 0, 0, 0] @ [9, 0] @ example_name @ [68, 0, 0, 0]
            @ example_header_bytes 0 0 0 @ [1, 2, 3])
   \<and> decompress_files stored_compress stored_decompress
       ([1, 0, 0, 0] @ [0, 0, 0, 0] @ [9, 0] @ example_name @ [68, 0, 0, 0]
        @ example_header_bytes 0 0 0 @ [1, 2, 3]) []
     = (None, [(example_name, \<lparr>contents = example_save,
          file_times = Some (- 11644473600, - 11644473600)\<rparr>)])
   \<and> example_save \<noteq> example_header_bytes 0 0 0 @ [1, 2, 3]
   \<and> (\<forall>c d.
        decompress_files c d
          ([1, 0, 0, 0] @ [0, 0, 0, 0] @ [9, 0] @ example_name @ [68, 0, 0, 0]
           @ example_header_bytes 0 0 0 @ [1, 2, 3]) []
        = (case c [1, 2, 3] of
             None \<Rightarrow>
               (Some LZ4BlockError,
                [(example_name, \<lparr>contents = [], file_times = None\<rparr>)])
           | Some cb \<Rightarrow>
               if length cb < 2 ^ 32
               then (None,
                 [(example_name,
                   \<lparr>contents = example_header_bytes 0 0 2 @ [3, 0, 0, 0]
                       @ le_pack 4 (length cb) @ cb,
                    file_times = Some (- 11644473600, - 11644473600)\<rparr>)])
               else (Some StructError,
                 [(example_name, \<lparr>contents = [], file_times = None\<rparr>)])))
   \<and> (\<forall>x y. example_header_bytes 0 0 2 @ x \<noteq> example_header_bytes 0 0 0 @ y)"
proof -
  let ?u = "example_header_bytes 0 0 0 @ [1, 2, 3]"
  let ?q = "with_body (example_header 0 0 0) [] None None [1, 2, 3]"
  let ?A = "[1, 0, 0, 0] @ [0, 0, 0, 0] @ [9, 0] @ example_name @ [68, 0, 0, 0] @ ?u"
  have lu: "length ?u < 2 ^ 32" by (simp add: example_header_bytes_def)
  have w: "wf_header (header_of ?q)"
    using ESS_init_Inr_D(1) [OF decode_example_stored [of stored_decompress]] .
  have gu: "get_uncompressed ?q = Inr ?u"
    unfolding get_uncompressed_wf [OF w]
    by (simp add: header_of_example example_header_bytes_0_0_0)
  have "list_all2 (\<lambda>(name, data) u. utf8_valid name \<and> length name < 2 ^ 16
             \<and> length u < 2 ^ 32
             \<and> (\<exists>r. ESS_init stored_decompress data = Inr r \<and> get_uncompressed r = Inr u))
          [(example_name, ?u)] [?u]"
    using utf8_valid_example_name example_names_fresh(4) lu
      decode_example_stored [of stored_decompress] gu
    by simp
  then have "compress_files stored_decompress [(example_name, ?u)] []
      = Inr (le_pack 4 (length [(example_name, ?u)])
             @ le_pack 4 (length ([] :: (filename \<times> bytes) list))
             @ concat (map2 entry_bytes (map fst [(example_name, ?u)]) [?u])
             @ concat (map (\<lambda>(name, data). entry_bytes name data) []))"
    by (rule compress_files_I) simp_all
  then have A: "compress_files stored_decompress [(example_name, ?u)] [] = Inr ?A"
    using example_archive_bytes(1) by simp
  have D: "decompress_files c d ?A []
      = (case get_compressed c ?q of
            Inl e \<Rightarrow> (Some e, [] @ [(example_name, \<lparr>contents = [], file_times = None\<rparr>)])
          | Inr z \<Rightarrow>
              (None, [] @ [(example_name, \<lparr>contents = z,
                 file_times = Some (get_filetime_as_posix_seconds ?q,
                   get_filetime_as_posix_seconds ?q)\<rparr>)]))" for c d
    using decompress_single_ess [OF utf8_valid_example_name example_names_fresh(4) lu
        example_names_fresh(1) decode_example_stored, of c d]
    unfolding example_archive_bytes(1) .
  have t: "get_filetime_as_posix_seconds ?q = - 11644473600"
    by (simp add: get_filetime_as_posix_seconds_def windows_filetime_to_unix_second_def
        EPOCH_AS_FILETIME_def with_body_def example_header_def)
  have p: "le_pack 4 3 = [3, 0, 0, 0]" by (simp add: le_pack_4)
  have hc: "header_chunks ?q 2 = Inr (example_header_bytes 0 0 2)"
    unfolding header_chunks_wf [OF w, of 2, simplified]
    by (simp add: header_of_example example_header_bytes_0_0_2)
  have n3: "length (uncompressedBlob ?q) = 3" by simp
  have l3: "pack_uint32 (length (uncompressedBlob ?q)) = Inr [3, 0, 0, 0]"
    unfolding n3 by (simp add: pack_uint32_def le_pack_4)
  have gc: "get_compressed c ?q
      = (case c [1, 2, 3] of
           None \<Rightarrow> Inl LZ4BlockError
         | Some cb \<Rightarrow>
             if length cb < 2 ^ 32
             then Inr (example_header_bytes 0 0 2 @ [3, 0, 0, 0] @ le_pack 4 (length cb) @ cb)
             else Inl StructError)" for c
    unfolding get_compressed_def hc l3
    by (simp add: pack_uint32_def split: option.splits)
  have G: "decompress_files c d ?A []
        = (case c [1, 2, 3] of
             None \<Rightarrow>
               (Some LZ4BlockError,
                [(example_name, \<lparr>contents = [], file_times = None\<rparr>)])
           | Some cb \<Rightarrow>
               if length cb < 2 ^ 32
               then (None,
                 [(example_name,
                   \<lparr>contents = example_header_bytes 0 0 2 @ [3, 0, 0, 0]
                       @ le_pack 4 (length cb) @ cb,
                    file_times = Some (- 11644473600, - 11644473600)\<rparr>)])
               else (Some StructError,
                 [(example_name, \<lparr>contents = [], file_times = None\<rparr>)]))" for c d
    unfolding D gc t by (simp split: option.splits)
  have B: "decompress_files stored_compress stored_decompress ?A []
     = (None, [(example_name, \<lparr>contents = example_save,
          file_times = Some (- 11644473600, - 11644473600)\<rparr>)])"
    unfolding G by (simp add: stored_compress_def example_save_def le_pack_4)
  have ne: "example_header_bytes 0 0 2 @ x \<noteq> example_header_bytes 0 0 0 @ y" for x y
    by (simp add: example_header_bytes_def)
  have C: "example_save \<noteq> ?u" unfolding example_save_def by (rule ne)
  from A B C G ne show ?thesis by blast
qed

end
